theory Spec2Isabelle
  imports Complex_Main
begin

section \<open>Doubles\<close>

text \<open>
  The partitioning code of \<^verbatim>\<open>src/partition/ReceivedBoundingBox.cpp\<close> works on
  \<^verbatim>\<open>double\<close> coordinates. A double is modelled as a value of the datatype below:
  not-a-number, the two infinities, or a finite real number. The two zeros of IEEE 754
  are one value; they compare equal, and the code only compares, adds, subtracts and
  multiplies them.

  \<^verbatim>\<open>std::numeric_limits<double>::max()\<close> is the largest finite double,
  \<^verbatim>\<open>(2^53 - 1) * 2^971\<close>, and \<^verbatim>\<open>lowest()\<close> is its negation.
\<close>

definition DBL_MAX :: real where
  "DBL_MAX = (2 ^ 53 - 1) * 2 ^ 971"

definition DBL_LOWEST :: real where
  "DBL_LOWEST = - DBL_MAX"

datatype double = NaN | MinusInfinity | Fin real | PlusInfinity

text \<open>
  The comparison \<^verbatim>\<open><\<close> of doubles: the order of the extended reals, and false
  whenever an argument is not a number. \<open>\<le>\<close> is its reflexive closure; the code uses
  it once, against the constant zero in \<^verbatim>\<open>assertion(_safetyFactor >= 0.0)\<close>, where it
  agrees with \<^verbatim>\<open>>=\<close> of IEEE 754.
\<close>

instantiation double :: order
begin

fun less_double :: "double \<Rightarrow> double \<Rightarrow> bool" where
  "less_double (Fin x) (Fin y) = (x < y)"
| "less_double MinusInfinity (Fin y) = True"
| "less_double MinusInfinity PlusInfinity = True"
| "less_double (Fin x) PlusInfinity = True"
| "less_double x y = False"

definition less_eq_double :: "double \<Rightarrow> double \<Rightarrow> bool" where
  "less_eq_double x y \<longleftrightarrow> x < y \<or> x = y"

instance
proof
  fix x y z :: double
  show "(x < y) = (x \<le> y \<and> \<not> y \<le> x)"
    by (cases x; cases y) (auto simp: less_eq_double_def)
  show "x \<le> x"
    by (simp add: less_eq_double_def)
  show "x \<le> y \<Longrightarrow> y \<le> z \<Longrightarrow> x \<le> z"
    by (cases x; cases y; cases z) (auto simp: less_eq_double_def)
  show "x \<le> y \<Longrightarrow> y \<le> x \<Longrightarrow> x = y"
    by (cases x; cases y) (auto simp: less_eq_double_def)
qed

end

text \<open>
  Arithmetic on doubles rounds. \<open>round_real x\<close> is the real number \<open>x\<close> rounded to the
  nearest multiple of the unit in the last place of its binade, \<open>2\<close> to the power
  \<open>ulp_exp x\<close> (53 significant bits, subnormal numbers from \<open>2\<^sup>-\<^sup>1\<^sup>0\<^sup>7\<^sup>4\<close> on), a tie going
  to the even multiple (\<open>rne\<close>); \<open>round_to_double\<close> turns a rounded value beyond
  \<open>DBL_MAX\<close> into an infinity. This is the default rounding of IEEE 754, and the code is
  taken to be evaluated in double precision throughout, every operation rounded on its
  own.
\<close>

definition rne :: "real \<Rightarrow> int" where
  "rne q =
     (if q - of_int \<lfloor>q\<rfloor> < 1 / 2 then \<lfloor>q\<rfloor>
      else if q - of_int \<lfloor>q\<rfloor> > 1 / 2 then \<lfloor>q\<rfloor> + 1
      else if even \<lfloor>q\<rfloor> then \<lfloor>q\<rfloor> else \<lfloor>q\<rfloor> + 1)"

definition ulp_exp :: "real \<Rightarrow> int" where
  "ulp_exp x = max (- 1074) (\<lfloor>log 2 \<bar>x\<bar>\<rfloor> - 52)"

definition round_real :: "real \<Rightarrow> real" where
  "round_real x =
     (if x = 0 then 0 else of_int (rne (x / 2 powi ulp_exp x)) * 2 powi ulp_exp x)"

definition round_to_double :: "real \<Rightarrow> double" where
  "round_to_double x =
     (if round_real x > DBL_MAX then PlusInfinity
      else if round_real x < - DBL_MAX then MinusInfinity
      else Fin (round_real x))"

text \<open>
  The real numbers that are finite doubles: an integer of less than 53 bits times a power
  of two from \<open>2\<^sup>-\<^sup>1\<^sup>0\<^sup>7\<^sup>4\<close> on, of magnitude at most \<open>DBL_MAX\<close>. A value of the model
  is a finite double when it is \<open>Fin\<close> of such a number.
\<close>

definition on_grid :: "real \<Rightarrow> bool" where
  "on_grid x \<longleftrightarrow> (\<exists>m e :: int. \<bar>m\<bar> < 2 ^ 53 \<and> - 1074 \<le> e \<and> x = of_int m * 2 powi e)"

definition representable :: "real \<Rightarrow> bool" where
  "representable x \<longleftrightarrow> on_grid x \<and> \<bar>x\<bar> \<le> DBL_MAX"

fun finite_double :: "double \<Rightarrow> bool" where
  "finite_double (Fin x) = representable x"
| "finite_double x = False"

fun the_real :: "double \<Rightarrow> real" where
  "the_real (Fin x) = x"
| "the_real x = 0"

text \<open>
  Negation, addition, subtraction and multiplication of doubles: the exact result,
  rounded, with the rules of IEEE 754 for infinities and not-a-number.
  \<^verbatim>\<open>std::max(a, b)\<close> is \<^verbatim>\<open>(a < b) ? b : a\<close>.
\<close>

fun fneg :: "double \<Rightarrow> double" where
  "fneg NaN = NaN"
| "fneg MinusInfinity = PlusInfinity"
| "fneg (Fin x) = Fin (- x)"
| "fneg PlusInfinity = MinusInfinity"

fun fadd :: "double \<Rightarrow> double \<Rightarrow> double" where
  "fadd NaN y = NaN"
| "fadd x NaN = NaN"
| "fadd (Fin x) (Fin y) = round_to_double (x + y)"
| "fadd (Fin x) y = y"
| "fadd x (Fin y) = x"
| "fadd PlusInfinity PlusInfinity = PlusInfinity"
| "fadd MinusInfinity MinusInfinity = MinusInfinity"
| "fadd PlusInfinity MinusInfinity = NaN"
| "fadd MinusInfinity PlusInfinity = NaN"

definition fsub :: "double \<Rightarrow> double \<Rightarrow> double" where
  "fsub x y = fadd x (fneg y)"

fun fmul :: "double \<Rightarrow> double \<Rightarrow> double" where
  "fmul NaN y = NaN"
| "fmul x NaN = NaN"
| "fmul (Fin x) (Fin y) = round_to_double (x * y)"
| "fmul (Fin x) PlusInfinity =
     (if x = 0 then NaN else if 0 < x then PlusInfinity else MinusInfinity)"
| "fmul (Fin x) MinusInfinity =
     (if x = 0 then NaN else if 0 < x then MinusInfinity else PlusInfinity)"
| "fmul PlusInfinity (Fin y) =
     (if y = 0 then NaN else if 0 < y then PlusInfinity else MinusInfinity)"
| "fmul MinusInfinity (Fin y) =
     (if y = 0 then NaN else if 0 < y then MinusInfinity else PlusInfinity)"
| "fmul PlusInfinity PlusInfinity = PlusInfinity"
| "fmul MinusInfinity MinusInfinity = PlusInfinity"
| "fmul PlusInfinity MinusInfinity = MinusInfinity"
| "fmul MinusInfinity PlusInfinity = MinusInfinity"

definition std_max :: "double \<Rightarrow> double \<Rightarrow> double" where
  "std_max a b = (if a < b then b else a)"

section \<open>Bounding boxes and ordered maps\<close>

text \<open>
  \<^verbatim>\<open>mesh::Mesh::BoundingBox\<close> is a \<^verbatim>\<open>std::vector<std::pair<double, double>>\<close>: one
  pair (first = lower bound, second = upper bound) per dimension. The overlap test only
  compares coordinates, so boxes and the test are polymorphic in the coordinate type;
  the program uses them at the type \<open>double\<close>.
\<close>

type_synonym 'a BoundingBox = "('a \<times> 'a) list"

text \<open>
  \<^verbatim>\<open>std::map<int, V>\<close> keeps its entries in ascending key order, and a range-for visits
  them in that order. It is modelled as an association list with strictly ascending keys.
  \<open>map_assign k v m\<close> is \<^verbatim>\<open>m[k] = v\<close> (insert or overwrite), \<open>map_at m k\<close> is
  the read \<^verbatim>\<open>m[k]\<close> of a vector-valued map, which yields the empty vector for a key
  that is not there, and \<^verbatim>\<open>m.size()\<close> is the length of the list.
\<close>

fun map_assign :: "int \<Rightarrow> 'v \<Rightarrow> (int \<times> 'v) list \<Rightarrow> (int \<times> 'v) list" where
  "map_assign k v [] = [(k, v)]"
| "map_assign k v ((k', v') # m) =
     (if k < k' then (k, v) # (k', v') # m
      else if k = k' then (k, v) # m
      else (k', v') # map_assign k v m)"

definition map_at :: "(int \<times> 'v list) list \<Rightarrow> int \<Rightarrow> 'v list" where
  "map_at m k = (case map_of m k of None \<Rightarrow> [] | Some v \<Rightarrow> v)"

type_synonym BoundingBoxMap = "(int \<times> double BoundingBox) list"

type_synonym FeedbackMap = "(int \<times> int list) list"

text \<open>
  What aborts or has no defined behaviour in the source is a value of the model: a failed
  \<^verbatim>\<open>assertion(...)\<close>, a vector read past its end, and a receive that finds no
  message of the expected kind (the blocking receive never returns).
\<close>

datatype error = AssertionFailed | OutOfRange | ReceiveFailed

section \<open>The overlap predicate\<close>

text \<open>
  \<^verbatim>\<open>ReceivedBoundingBox::overlapping(currentBB, receivedBB)\<close>: the loop over
  \<^verbatim>\<open>i < _dimensions\<close> returns false at the first dimension in which both bounds of
  one box lie strictly below the lower bound of the other, and true when there is none.
\<close>

function overlapping_loop ::
  "nat \<Rightarrow> nat \<Rightarrow> ('a::ord) BoundingBox \<Rightarrow> 'a BoundingBox \<Rightarrow> error + bool" where
  "overlapping_loop dims i currentBB receivedBB =
     (if i < dims then
        (if i < length currentBB \<and> i < length receivedBB then
           (if (fst (currentBB ! i) < fst (receivedBB ! i)
                  \<and> snd (currentBB ! i) < fst (receivedBB ! i))
               \<or> (fst (receivedBB ! i) < fst (currentBB ! i)
                  \<and> snd (receivedBB ! i) < fst (currentBB ! i))
            then Inr False
            else overlapping_loop dims (Suc i) currentBB receivedBB)
         else Inl OutOfRange)
      else Inr True)"
  by pat_completeness auto
termination
  by (relation "measure (\<lambda>(dims, i, c, r). dims - i)") auto

declare overlapping_loop.simps [simp del]

definition overlapping ::
  "nat \<Rightarrow> ('a::ord) BoundingBox \<Rightarrow> 'a BoundingBox \<Rightarrow> error + bool" where
  "overlapping dims currentBB receivedBB = overlapping_loop dims 0 currentBB receivedBB"

section \<open>The instance and its local bounding box\<close>

text \<open>
  The fields of a \<^verbatim>\<open>ReceivedBoundingBox\<close> that the file reads and writes. A mapping
  pointer is modelled by what the code takes from it: \<open>fromMapping\<close> is the bounding box
  of \<^verbatim>\<open>_fromMapping->getOutputMesh()\<close>, \<open>toMapping\<close> that of
  \<^verbatim>\<open>_toMapping->getInputMesh()\<close>, and \<open>None\<close> stands for \<^verbatim>\<open>use_count() == 0\<close>.
  The dimension is the mesh's (2 or 3), a natural number here.
\<close>

record ReceivedBoundingBox =
  bb :: "double BoundingBox"
  dimensions :: nat
  safetyFactor :: double
  remoteBBM :: BoundingBoxMap
  remoteParComSize :: int
  fromMapping :: "double BoundingBox option"
  toMapping :: "double BoundingBox option"

text \<open>
  The constructor fills \<open>bb\<close> with the pair (max, lowest) in every dimension and leaves
  the map empty. The class declaration is not part of the sources, so the initial value
  of \<^verbatim>\<open>_remoteParComSize\<close> is a parameter, as are the mappings that the partition
  driver attaches afterwards.
\<close>

definition newReceivedBoundingBox ::
  "nat \<Rightarrow> double \<Rightarrow> int \<Rightarrow> double BoundingBox option \<Rightarrow> double BoundingBox option
     \<Rightarrow> ReceivedBoundingBox" where
  "newReceivedBoundingBox dims sf rpcs fromM toM =
     \<lparr>bb = replicate dims (Fin DBL_MAX, Fin DBL_LOWEST), dimensions = dims,
      safetyFactor = sf,
      remoteBBM = [], remoteParComSize = rpcs, fromMapping = fromM, toMapping = toM\<rparr>"

text \<open>\<^verbatim>\<open>std::vector::resize(n, v)\<close>: keep the first \<open>n\<close> elements, pad with \<open>v\<close>.\<close>

definition resize :: "nat \<Rightarrow> 'a \<Rightarrow> 'a list \<Rightarrow> 'a list" where
  "resize n v xs = take n xs @ replicate (n - length xs) v"

text \<open>
  The loop that widens \<^verbatim>\<open>_bb\<close> to contain \<^verbatim>\<open>other_bb\<close>. \<^verbatim>\<open>_bb\<close> has
  \<^verbatim>\<open>_dimensions\<close> entries after the resize; \<^verbatim>\<open>other_bb\<close> belongs to another mesh
  and reading it past its end is an error of the model.
\<close>

function merge_loop ::
  "nat \<Rightarrow> nat \<Rightarrow> double BoundingBox \<Rightarrow> double BoundingBox \<Rightarrow> error + double BoundingBox" where
  "merge_loop dims d other_bb b =
     (if d < dims then
        (if d < length other_bb \<and> d < length b then
           (let b1 = (if fst (b ! d) > fst (other_bb ! d)
                      then b[d := (fst (other_bb ! d), snd (b ! d))] else b);
                b2 = (if snd (b1 ! d) < snd (other_bb ! d)
                      then b1[d := (fst (b1 ! d), snd (other_bb ! d))] else b1)
            in merge_loop dims (Suc d) other_bb b2)
         else Inl OutOfRange)
      else Inr b)"
  by pat_completeness auto
termination
  by (relation "measure (\<lambda>(dims, d, other_bb, b). dims - d)") auto

declare merge_loop.simps [simp del]

text \<open>The loop \<^verbatim>\<open>maxSideLength = std::max(maxSideLength, _bb[d].second - _bb[d].first)\<close>.\<close>

function maxSideLength_loop :: "nat \<Rightarrow> nat \<Rightarrow> double BoundingBox \<Rightarrow> double \<Rightarrow> double" where
  "maxSideLength_loop dims d b maxSideLength =
     (if d < dims
      then maxSideLength_loop dims (Suc d) b
             (std_max maxSideLength (fsub (snd (b ! d)) (fst (b ! d))))
      else maxSideLength)"
  by pat_completeness auto
termination
  by (relation "measure (\<lambda>(dims, d, b, m). dims - d)") auto

declare maxSideLength_loop.simps [simp del]

text \<open>
  The loop \<^verbatim>\<open>_bb[d].second += _safetyFactor * maxSideLength;
  _bb[d].first -= _safetyFactor * maxSideLength\<close>.
\<close>

function enlarge_loop ::
  "nat \<Rightarrow> nat \<Rightarrow> double \<Rightarrow> double \<Rightarrow> double BoundingBox \<Rightarrow> double BoundingBox" where
  "enlarge_loop dims d sf maxSideLength b =
     (if d < dims
      then
        (let b1 = b[d := (fst (b ! d), fadd (snd (b ! d)) (fmul sf maxSideLength))];
             b2 = b1[d := (fsub (fst (b1 ! d)) (fmul sf maxSideLength), snd (b1 ! d))]
         in enlarge_loop dims (Suc d) sf maxSideLength b2)
      else b)"
  by pat_completeness auto
termination
  by (relation "measure (\<lambda>(dims, d, sf, m, b). dims - d)") auto

declare enlarge_loop.simps [simp del]

text \<open>
  \<^verbatim>\<open>prepareBoundingBox()\<close>: resize, merge the attached mappings' boxes, assert the
  safety factor, dilate. The literal \<^verbatim>\<open>1e-6\<close> is the double nearest to \<open>10\<^sup>-\<^sup>6\<close>.
\<close>

definition EPS :: double where
  "EPS = round_to_double (1 / 10 ^ 6)"

definition prepareBoundingBox :: "ReceivedBoundingBox \<Rightarrow> error + ReceivedBoundingBox" where
  "prepareBoundingBox s =
     (let b0 = resize (dimensions s) (Fin DBL_MAX, Fin DBL_LOWEST) (bb s) in
      case (case fromMapping s of
              None \<Rightarrow> Inr b0
            | Some other_bb \<Rightarrow> merge_loop (dimensions s) 0 other_bb b0) of
        Inl e \<Rightarrow> Inl e
      | Inr b1 \<Rightarrow>
          (case (case toMapping s of
                   None \<Rightarrow> Inr b1
                 | Some other_bb \<Rightarrow> merge_loop (dimensions s) 0 other_bb b1) of
             Inl e \<Rightarrow> Inl e
           | Inr b2 \<Rightarrow>
               if safetyFactor s \<ge> Fin 0 then
                 (let maxSideLength = maxSideLength_loop (dimensions s) 0 b2 EPS
                  in Inr (s\<lparr>bb := enlarge_loop (dimensions s) 0 (safetyFactor s)
                                     maxSideLength b2\<rparr>))
               else Inl AssertionFailed))"

section \<open>Messages and channels\<close>

text \<open>
  A rank sees two channels: the master communication of the m2n object, which connects
  the two masters, and \<^verbatim>\<open>utils::MasterSlave::_communication\<close>, which connects the
  master with its slaves. A channel end is a queue of the messages that have arrived and
  have not been received yet, and a log of what this rank has sent. The four statics of
  \<^verbatim>\<open>utils::MasterSlave\<close> that the code reads are a record.
\<close>

datatype message =
    IntMsg int
  | IntVecMsg "int list"
  | BoundingBoxMapMsg BoundingBoxMap
  | FeedbackMapMsg FeedbackMap

datatype sent = Send int message | Broadcast message

record Channels =
  m2n_in :: "message list"
  m2n_out :: "message list"
  com_in :: "int \<Rightarrow> message list"
  com_out :: "sent list"

record MasterSlave =
  masterMode :: bool
  slaveMode :: bool
  rank :: int
  commSize :: int

text \<open>
  Modelled from the spec: the transport primitives of \<^verbatim>\<open>com/Communication.hpp\<close> are
  not part of the sources. Following the interface list of the spec, a receive of an
  integer or of an integer vector takes the next message of the queue of its peer and
  blocks (here: fails) when that message is missing or of another kind; a send or a
  broadcast by the root appends to the log; a broadcast on a non-root rank is a receive
  from the root.
\<close>

definition receive_int :: "message list \<Rightarrow> error + (int \<times> message list)" where
  "receive_int q = (case q of IntMsg x # q' \<Rightarrow> Inr (x, q') | _ \<Rightarrow> Inl ReceiveFailed)"

definition receive_vec :: "message list \<Rightarrow> error + (int list \<times> message list)" where
  "receive_vec q = (case q of IntVecMsg xs # q' \<Rightarrow> Inr (xs, q') | _ \<Rightarrow> Inl ReceiveFailed)"

definition m2n_receive_int :: "Channels \<Rightarrow> error + (int \<times> Channels)" where
  "m2n_receive_int c =
     (case receive_int (m2n_in c) of
        Inl e \<Rightarrow> Inl e
      | Inr (x, q') \<Rightarrow> Inr (x, c\<lparr>m2n_in := q'\<rparr>))"

definition m2n_send :: "message \<Rightarrow> Channels \<Rightarrow> Channels" where
  "m2n_send m c = c\<lparr>m2n_out := m2n_out c @ [m]\<rparr>"

definition com_receive_int :: "int \<Rightarrow> Channels \<Rightarrow> error + (int \<times> Channels)" where
  "com_receive_int src c =
     (case receive_int (com_in c src) of
        Inl e \<Rightarrow> Inl e
      | Inr (x, q') \<Rightarrow> Inr (x, c\<lparr>com_in := (com_in c)(src := q')\<rparr>))"

definition com_receive_vec :: "int \<Rightarrow> Channels \<Rightarrow> error + (int list \<times> Channels)" where
  "com_receive_vec src c =
     (case receive_vec (com_in c src) of
        Inl e \<Rightarrow> Inl e
      | Inr (xs, q') \<Rightarrow> Inr (xs, c\<lparr>com_in := (com_in c)(src := q')\<rparr>))"

definition com_send :: "message \<Rightarrow> int \<Rightarrow> Channels \<Rightarrow> Channels" where
  "com_send m dest c = c\<lparr>com_out := com_out c @ [Send dest m]\<rparr>"

definition com_broadcast :: "message \<Rightarrow> Channels \<Rightarrow> Channels" where
  "com_broadcast m c = c\<lparr>com_out := com_out c @ [Broadcast m]\<rparr>"

text \<open>
  Modelled from the spec: the codec of \<^verbatim>\<open>com/CommunicateBoundingBox.hpp\<close> is not part
  of the sources. By the spec a bounding-box map travels as its entries (rank, box), and
  the receiver, whose map has been filled with placeholders, overwrites them: every
  received entry is stored under its rank. A feedback map travels as one message.
\<close>

definition store_entries :: "BoundingBoxMap \<Rightarrow> BoundingBoxMap \<Rightarrow> BoundingBoxMap" where
  "store_entries received bbm = fold (\<lambda>(k, b) m. map_assign k b m) received bbm"

definition receive_bbm :: "BoundingBoxMap \<Rightarrow> message list \<Rightarrow> error + (BoundingBoxMap \<times> message list)" where
  "receive_bbm bbm q =
     (case q of
        BoundingBoxMapMsg received # q' \<Rightarrow> Inr (store_entries received bbm, q')
      | _ \<Rightarrow> Inl ReceiveFailed)"

definition receiveBoundingBoxMap :: "BoundingBoxMap \<Rightarrow> Channels \<Rightarrow> error + (BoundingBoxMap \<times> Channels)" where
  "receiveBoundingBoxMap bbm c =
     (case receive_bbm bbm (m2n_in c) of
        Inl e \<Rightarrow> Inl e
      | Inr (bbm', q') \<Rightarrow> Inr (bbm', c\<lparr>m2n_in := q'\<rparr>))"

definition broadcastSendBoundingBoxMap :: "BoundingBoxMap \<Rightarrow> Channels \<Rightarrow> Channels" where
  "broadcastSendBoundingBoxMap bbm c = com_broadcast (BoundingBoxMapMsg bbm) c"

definition broadcastReceiveBoundingBoxMap :: "BoundingBoxMap \<Rightarrow> Channels \<Rightarrow> error + (BoundingBoxMap \<times> Channels)" where
  "broadcastReceiveBoundingBoxMap bbm c =
     (case receive_bbm bbm (com_in c 0) of
        Inl e \<Rightarrow> Inl e
      | Inr (bbm', q') \<Rightarrow> Inr (bbm', c\<lparr>com_in := (com_in c)(0 := q')\<rparr>))"

definition sendFeedbackMap :: "FeedbackMap \<Rightarrow> Channels \<Rightarrow> Channels" where
  "sendFeedbackMap fm c = m2n_send (FeedbackMapMsg fm) c"

section \<open>Phase 1: communicateBoundingBox\<close>

text \<open>
  The loop \<^verbatim>\<open>for (remoteRank = 0; remoteRank < _remoteParComSize; remoteRank++)
  _remoteBBM[remoteRank] = initialBB\<close>, and \<open>initialBB\<close>, a box of \<^verbatim>\<open>_dimensions\<close>
  pairs (-1, -1).
\<close>

function init_remoteBBM ::
  "int \<Rightarrow> int \<Rightarrow> double BoundingBox \<Rightarrow> BoundingBoxMap \<Rightarrow> BoundingBoxMap" where
  "init_remoteBBM remoteRank n initialBB bbm =
     (if remoteRank < n
      then init_remoteBBM (remoteRank + 1) n initialBB (map_assign remoteRank initialBB bbm)
      else bbm)"
  by pat_completeness auto
termination
  by (relation "measure (\<lambda>(remoteRank, n, initialBB, bbm). nat (n - remoteRank))") auto

declare init_remoteBBM.simps [simp del]

definition initialBB :: "nat \<Rightarrow> double BoundingBox" where
  "initialBB dims = replicate dims (Fin (- 1), Fin (- 1))"

text \<open>
  \<^verbatim>\<open>communicateBoundingBox()\<close>: every rank that is not in slave mode receives the
  size of the remote participant and then the remote bounding-box map from the other
  master.
\<close>

definition communicateBoundingBox ::
  "MasterSlave \<Rightarrow> ReceivedBoundingBox \<times> Channels \<Rightarrow> error + ReceivedBoundingBox \<times> Channels" where
  "communicateBoundingBox ms p =
     (case p of (s, c) \<Rightarrow>
        if \<not> slaveMode ms then
          (case m2n_receive_int c of
             Inl e \<Rightarrow> Inl e
           | Inr (n, c1) \<Rightarrow>
               (let bbm1 = init_remoteBBM 0 n (initialBB (dimensions s)) (remoteBBM s) in
                case receiveBoundingBoxMap bbm1 c1 of
                  Inl e \<Rightarrow> Inl e
                | Inr (bbm2, c2) \<Rightarrow>
                    Inr (s\<lparr>remoteParComSize := n, remoteBBM := bbm2\<rparr>, c2)))
        else Inr (s, c))"

section \<open>Phase 2: computeBoundingBox\<close>

text \<open>
  The loop over \<^verbatim>\<open>_remoteBBM\<close> that collects in \<^verbatim>\<open>feedback\<close> the ranks whose box
  overlaps \<^verbatim>\<open>_bb\<close>; the same loop stands in the master's and in the slave's branch.
\<close>

fun feedback_loop ::
  "nat \<Rightarrow> double BoundingBox \<Rightarrow> BoundingBoxMap \<Rightarrow> int list \<Rightarrow> error + int list" where
  "feedback_loop dims b [] feedback = Inr feedback"
| "feedback_loop dims b (remoteBB # bbm) feedback =
     (case overlapping dims b (snd remoteBB) of
        Inl e \<Rightarrow> Inl e
      | Inr ov \<Rightarrow>
          feedback_loop dims b bbm (if ov then feedback @ [fst remoteBB] else feedback))"

text \<open>
  The master's loop \<^verbatim>\<open>feedbackMap[rank_slave].push_back(-1)\<close> over the slave ranks.
\<close>

function init_feedbackMap :: "int \<Rightarrow> int \<Rightarrow> FeedbackMap \<Rightarrow> FeedbackMap" where
  "init_feedbackMap rank_slave n feedbackMap =
     (if rank_slave < n
      then init_feedbackMap (rank_slave + 1) n
             (map_assign rank_slave (map_at feedbackMap rank_slave @ [- 1]) feedbackMap)
      else feedbackMap)"
  by pat_completeness auto
termination
  by (relation "measure (\<lambda>(rank_slave, n, feedbackMap). nat (n - rank_slave))") auto

declare init_feedbackMap.simps [simp del]

text \<open>
  The master's loop over the slave ranks: receive the size of the slave's feedback and,
  when it is not zero, the feedback itself, which replaces the entry of that rank.
\<close>

function receive_feedback_loop ::
  "int \<Rightarrow> int \<Rightarrow> FeedbackMap \<Rightarrow> Channels \<Rightarrow> error + FeedbackMap \<times> Channels" where
  "receive_feedback_loop r n feedbackMap c =
     (if r < n then
        (case com_receive_int r c of
           Inl e \<Rightarrow> Inl e
         | Inr (feedbackSize, c1) \<Rightarrow>
             if feedbackSize \<noteq> 0 then
               (case com_receive_vec r c1 of
                  Inl e \<Rightarrow> Inl e
                | Inr (slaveFeedback, c2) \<Rightarrow>
                    receive_feedback_loop (r + 1) n (map_assign r slaveFeedback feedbackMap) c2)
             else receive_feedback_loop (r + 1) n feedbackMap c1)
      else Inr (feedbackMap, c))"
  by pat_completeness auto
termination
  by (relation "measure (\<lambda>(r, n, feedbackMap, c). nat (n - r))") auto

declare receive_feedback_loop.simps [simp del]

text \<open>
  \<^verbatim>\<open>computeBoundingBox()\<close>. Every rank prepares its box. The master then broadcasts
  the remote size and map, builds the feedback map and sends it to the other master; a
  slave receives the broadcasts, computes its feedback and sends it to the master; a
  rank that is neither does nothing more.
\<close>

definition computeBoundingBox ::
  "MasterSlave \<Rightarrow> ReceivedBoundingBox \<times> Channels \<Rightarrow> error + ReceivedBoundingBox \<times> Channels" where
  "computeBoundingBox ms p =
     (case p of (s0, c) \<Rightarrow>
     (case prepareBoundingBox s0 of
        Inl e \<Rightarrow> Inl e
      | Inr s \<Rightarrow>
          if masterMode ms then
            (if rank ms \<noteq> 0 then Inl AssertionFailed
             else if \<not> (commSize ms > 1) then Inl AssertionFailed
             else
               (let c1 = com_broadcast (IntMsg (remoteParComSize s)) c;
                    c2 = broadcastSendBoundingBoxMap (remoteBBM s) c1;
                    feedbackMap0 = init_feedbackMap 1 (commSize ms) []
                in case feedback_loop (dimensions s) (bb s) (remoteBBM s) [] of
                     Inl e \<Rightarrow> Inl e
                   | Inr feedback \<Rightarrow>
                       (let feedbackMap1 =
                              (if length feedback \<noteq> 0 then map_assign 0 feedback feedbackMap0
                               else feedbackMap0)
                        in case receive_feedback_loop 1 (commSize ms) feedbackMap1 c2 of
                             Inl e \<Rightarrow> Inl e
                           | Inr (feedbackMap, c3) \<Rightarrow>
                               (let c4 = m2n_send (IntMsg (int (length feedbackMap))) c3;
                                    c5 = (if length feedbackMap \<noteq> 0
                                          then sendFeedbackMap feedbackMap c4 else c4)
                                in Inr (s, c5)))))
          else if slaveMode ms then
            (case com_receive_int 0 c of
               Inl e \<Rightarrow> Inl e
             | Inr (n, c1) \<Rightarrow>
                 (let bbm1 = init_remoteBBM 0 n (initialBB (dimensions s)) (remoteBBM s) in
                  case broadcastReceiveBoundingBoxMap bbm1 c1 of
                    Inl e \<Rightarrow> Inl e
                  | Inr (bbm2, c2) \<Rightarrow>
                      (case feedback_loop (dimensions s) (bb s) bbm2 [] of
                         Inl e \<Rightarrow> Inl e
                       | Inr feedback \<Rightarrow>
                           (let c3 = com_send (IntMsg (int (length feedback))) 0 c2;
                                c4 = (if length feedback \<noteq> 0
                                      then com_send (IntVecMsg feedback) 0 c3 else c3)
                            in Inr (s\<lparr>remoteParComSize := n, remoteBBM := bbm2\<rparr>, c4)))))
          else Inr (s, c)))"

section \<open>The ranks of one participant together\<close>

text \<open>
  Phase 2 of a participant with a master and \<open>length slaves\<close> slaves, on channels with
  nothing pending. What the master broadcasts depends on its state alone, so the run is
  sequenced as: the broadcasts are delivered to every slave, each slave (rank
  \<open>1, 2, \<dots>\<close> in list order) runs to its end, what it sent to rank 0 is delivered to the
  master, and the master runs. The blocking receives of the source allow no other outcome.
\<close>

definition idle :: Channels where
  "idle = \<lparr>m2n_in = [], m2n_out = [], com_in = (\<lambda>r. []), com_out = []\<rparr>"

definition masterRole :: "int \<Rightarrow> MasterSlave" where
  "masterRole n = \<lparr>masterMode = True, slaveMode = False, rank = 0, commSize = n\<rparr>"

definition slaveRole :: "int \<Rightarrow> int \<Rightarrow> MasterSlave" where
  "slaveRole n r = \<lparr>masterMode = False, slaveMode = True, rank = r, commSize = n\<rparr>"

definition soloRole :: MasterSlave where
  "soloRole = \<lparr>masterMode = False, slaveMode = False, rank = 0, commSize = 1\<rparr>"

fun sent_to :: "int \<Rightarrow> sent list \<Rightarrow> message list" where
  "sent_to dest [] = []"
| "sent_to dest (Send d m # xs) = (if d = dest then m # sent_to dest xs else sent_to dest xs)"
| "sent_to dest (Broadcast m # xs) = sent_to dest xs"

fun broadcasts :: "sent list \<Rightarrow> message list" where
  "broadcasts [] = []"
| "broadcasts (Send d m # xs) = broadcasts xs"
| "broadcasts (Broadcast m # xs) = m # broadcasts xs"

fun run_slaves ::
  "int \<Rightarrow> int \<Rightarrow> message list \<Rightarrow> ReceivedBoundingBox list
     \<Rightarrow> error + (ReceivedBoundingBox \<times> Channels) list" where
  "run_slaves n r bc [] = Inr []"
| "run_slaves n r bc (s # slaves) =
     (case computeBoundingBox (slaveRole n r) (s, idle\<lparr>com_in := (\<lambda>src. if src = 0 then bc else [])\<rparr>) of
        Inl e \<Rightarrow> Inl e
      | Inr p \<Rightarrow>
          (case run_slaves n (r + 1) bc slaves of
             Inl e \<Rightarrow> Inl e
           | Inr ps \<Rightarrow> Inr (p # ps)))"

definition from_slaves :: "(ReceivedBoundingBox \<times> Channels) list \<Rightarrow> int \<Rightarrow> message list" where
  "from_slaves ps src =
     (if 1 \<le> src \<and> src \<le> int (length ps)
      then sent_to 0 (com_out (snd (ps ! nat (src - 1)))) else [])"

definition collective_computeBoundingBox ::
  "ReceivedBoundingBox \<Rightarrow> ReceivedBoundingBox list
     \<Rightarrow> error + (ReceivedBoundingBox \<times> Channels) \<times> (ReceivedBoundingBox \<times> Channels) list" where
  "collective_computeBoundingBox master slaves =
     (let n = 1 + int (length slaves);
          bc = [IntMsg (remoteParComSize master), BoundingBoxMapMsg (remoteBBM master)]
      in case run_slaves n 1 bc slaves of
           Inl e \<Rightarrow> Inl e
         | Inr ps \<Rightarrow>
             (case computeBoundingBox (masterRole n) (master, idle\<lparr>com_in := from_slaves ps\<rparr>) of
                Inl e \<Rightarrow> Inl e
              | Inr p \<Rightarrow> Inr (p, ps)))"

section \<open>Notions of the specification\<close>

text \<open>
  The specification's sentinel box with infinite bounds, and a box of real bounds read
  as a box of doubles.
\<close>

definition sentinel_inf :: "nat \<Rightarrow> double BoundingBox" where
  "sentinel_inf dims = replicate dims (PlusInfinity, MinusInfinity)"

definition finite_box :: "real BoundingBox \<Rightarrow> double BoundingBox" where
  "finite_box b = map (\<lambda>x. (Fin (fst x), Fin (snd x))) b"

text \<open>
  The union of two boxes, ``componentwise min of lower bounds, max of upper bounds'',
  the boxes of the attached mappings, and the union that section 4.1 describes: the
  sentinel box with the attached boxes united into it.
\<close>

definition unite :: "double BoundingBox \<Rightarrow> double BoundingBox \<Rightarrow> double BoundingBox" where
  "unite a b = map2 (\<lambda>x y. (min (fst x) (fst y), max (snd x) (snd y))) a b"

definition attached :: "ReceivedBoundingBox \<Rightarrow> double BoundingBox list" where
  "attached s =
     (case fromMapping s of None \<Rightarrow> [] | Some b \<Rightarrow> [b])
     @ (case toMapping s of None \<Rightarrow> [] | Some b \<Rightarrow> [b])"

definition union_of_attached :: "ReceivedBoundingBox \<Rightarrow> double BoundingBox" where
  "union_of_attached s =
     foldl unite (replicate (dimensions s) (Fin DBL_MAX, Fin DBL_LOWEST))
       (map (take (dimensions s)) (attached s))"

text \<open>
  A box dilated by \<open>eps\<close> on each side, and the box that testable property 4 of the
  specification expects for a safety factor of zero: the union, dilated by \<open>10\<^sup>-\<^sup>6\<close>
  exactly when all its side lengths are zero.
\<close>

definition dilate :: "double \<Rightarrow> double BoundingBox \<Rightarrow> double BoundingBox" where
  "dilate eps b = map (\<lambda>x. (fsub (fst x) eps, fadd (snd x) eps)) b"

definition union_dilated_if_degenerate :: "ReceivedBoundingBox \<Rightarrow> double BoundingBox" where
  "union_dilated_if_degenerate s =
     (if list_all (\<lambda>x. fsub (snd x) (fst x) = Fin 0) (union_of_attached s)
      then dilate EPS (union_of_attached s)
      else union_of_attached s)"

text \<open>
  A box of finite doubles, and a box none of whose side lengths exceeds the largest
  finite double.
\<close>

definition finite_double_box :: "double BoundingBox \<Rightarrow> bool" where
  "finite_double_box b = list_all (\<lambda>x. finite_double (fst x) \<and> finite_double (snd x)) b"

definition sides_within_max :: "double BoundingBox \<Rightarrow> bool" where
  "sides_within_max b = list_all (\<lambda>x. the_real (snd x) - the_real (fst x) \<le> DBL_MAX) b"

text \<open>
  The overlap set of a rank as the specification words it: the remote ranks of the map
  whose box overlaps the box \<open>b\<close>, in ascending order.
\<close>

definition overlap_ranks :: "nat \<Rightarrow> double BoundingBox \<Rightarrow> BoundingBoxMap \<Rightarrow> int list" where
  "overlap_ranks dims b bbm =
     sorted_list_of_set (fst ` {e \<in> set bbm. overlapping dims b (snd e) = Inr True})"

text \<open>
  The entry of a rank in a feedback map, read as the specification reads it: a key that
  is absent stands for the empty list, and so does the one-element list \<open>[-1]\<close>.
\<close>

definition feedback_of :: "FeedbackMap \<Rightarrow> int \<Rightarrow> int list" where
  "feedback_of fm r = (if map_at fm r = [- 1] then [] else map_at fm r)"

text \<open>
  What the wire contract of phase 2 lets a slave with feedback \<open>fb\<close> send to the master:
  the length, and the list itself only when it is not empty.
\<close>

definition feedback_messages :: "int list \<Rightarrow> message list" where
  "feedback_messages fb =
     IntMsg (int (length fb)) # (if fb = [] then [] else [IntVecMsg fb])"

text \<open>
  A rank can run phase 2 against the remote map \<open>bbm\<close> without aborting: its safety
  factor is not negative, and the boxes it reads (those of its mappings and those of the
  map) have at least \<open>dimensions\<close> entries.
\<close>

definition rank_ready :: "BoundingBoxMap \<Rightarrow> ReceivedBoundingBox \<Rightarrow> bool" where
  "rank_ready bbm s \<longleftrightarrow>
     Fin 0 \<le> safetyFactor s
     \<and> list_all (\<lambda>b. dimensions s \<le> length b) (attached s)
     \<and> list_all (\<lambda>e. dimensions s \<le> length (snd e)) bbm"


text \<open>
  The scenarios E1 and E2 of the specification: two dimensions, a master and one slave
  with a safety factor of zero, whose mappings have the boxes \<open>[[0,1],[0,1]]\<close> and
  \<open>[[2,3],[0,1]]\<close>, and a remote participant of two ranks. The master is taken after
  phase 1, with the remote map in place. The bounds of the remote boxes are only compared,
  never computed with, so the decimal \<open>2.9\<close> of E1 is kept as it is written.
\<close>

definition E1_master :: ReceivedBoundingBox where
  "E1_master =
     (newReceivedBoundingBox 2 (Fin 0) 0 (Some [(Fin 0, Fin 1), (Fin 0, Fin 1)]) None)
      \<lparr>remoteParComSize := 2,
       remoteBBM := [(0, [(Fin (1 / 2), Fin (3 / 2)), (Fin 0, Fin 1)]),
                     (1, [(Fin (5 / 2), Fin (29 / 10)), (Fin 0, Fin 1)])]\<rparr>"

definition E2_master :: ReceivedBoundingBox where
  "E2_master =
     (newReceivedBoundingBox 2 (Fin 0) 0 (Some [(Fin 0, Fin 1), (Fin 0, Fin 1)]) None)
      \<lparr>remoteParComSize := 2,
       remoteBBM := [(0, [(Fin 10, Fin 11), (Fin 10, Fin 11)]),
                     (1, [(Fin 20, Fin 21), (Fin 20, Fin 21)])]\<rparr>"

definition E_slave :: ReceivedBoundingBox where
  "E_slave = newReceivedBoundingBox 2 (Fin 0) 0 (Some [(Fin 2, Fin 3), (Fin 0, Fin 1)]) None"

text \<open>A single-rank participant in one dimension, with the box \<open>[[0, 1]]\<close> attached.\<close>

definition solo_instance :: ReceivedBoundingBox where
  "solo_instance = newReceivedBoundingBox 1 (Fin 0) 0 (Some [(Fin 0, Fin 1)]) None"

section \<open>Properties of the arithmetic\<close>

text \<open>
  Rounding to the nearest integer stays between the integers around its argument; the
  exponent of the unit in the last place comes from the binade of the argument.
\<close>

lemma rne_of_int [simp]: "rne (of_int n) = n"
  by (simp add: rne_def)

lemma rne_near: "\<bar>q - of_int n\<bar> < 1 / 2 \<Longrightarrow> rne q = n"
proof -
  assume a: "\<bar>q - of_int n\<bar> < 1 / 2"
  show ?thesis
  proof (cases "of_int n \<le> q")
    case True
    with a have "\<lfloor>q\<rfloor> = n" by (intro floor_unique) auto
    with a True show ?thesis by (simp add: rne_def)
  next
    case False
    with a have f: "\<lfloor>q\<rfloor> = n - 1" by (intro floor_unique) auto
    with a False have "q - of_int \<lfloor>q\<rfloor> > 1 / 2" by simp
    with f show ?thesis by (simp add: rne_def)
  qed
qed

lemma rne_le: "q \<le> of_int n \<Longrightarrow> rne q \<le> n"
proof -
  assume a: "q \<le> of_int n"
  then have fl: "\<lfloor>q\<rfloor> \<le> n" by (simp add: floor_le_iff) 
  show ?thesis
  proof (cases "q = of_int \<lfloor>q\<rfloor>")
    case True
    then have "rne q = \<lfloor>q\<rfloor>" by (simp add: rne_def)
    with fl show ?thesis by simp
  next
    case False
    have "of_int \<lfloor>q\<rfloor> \<le> q" by (rule of_int_floor_le)
    with False have "of_int \<lfloor>q\<rfloor> < q" by linarith
    with a have "of_int \<lfloor>q\<rfloor> < (of_int n :: real)" by linarith
    then have "\<lfloor>q\<rfloor> < n" by simp
    moreover have "rne q \<le> \<lfloor>q\<rfloor> + 1" by (simp add: rne_def)
    ultimately show ?thesis by linarith
  qed
qed

lemma rne_ge: "of_int n \<le> q \<Longrightarrow> n \<le> rne q"
proof -
  assume "of_int n \<le> q"
  then have "n \<le> \<lfloor>q\<rfloor>" by (simp add: le_floor_iff)
  moreover have "\<lfloor>q\<rfloor> \<le> rne q" by (simp add: rne_def)
  ultimately show ?thesis by linarith
qed

lemma powr_powi: "2 powr (of_int k) = (2::real) powi k"
  by (simp add: powr_real_of_int')

lemma log2_bounds:
  assumes "0 < a"
  shows "2 powi \<lfloor>log 2 a\<rfloor> \<le> a" and "a < 2 powi (\<lfloor>log 2 a\<rfloor> + 1)"
proof -
  have "2 powr (of_int \<lfloor>log 2 a\<rfloor>) \<le> a \<and> a < 2 powr (of_int (\<lfloor>log 2 a\<rfloor> + 1))"
    using floor_log_eq_powr_iff[of a 2 "\<lfloor>log 2 a\<rfloor>"] assms by simp
  then show "2 powi \<lfloor>log 2 a\<rfloor> \<le> a" and "a < 2 powi (\<lfloor>log 2 a\<rfloor> + 1)"
    unfolding powr_powi by blast+
qed

lemma log2_unique:
  assumes "2 powi k \<le> a" and "a < 2 powi (k + 1)"
  shows "\<lfloor>log 2 a\<rfloor> = k"
proof -
  have "(0::real) < 2 powi k" by simp
  with assms(1) have pos: "0 < a" by linarith
  have "2 powr (of_int k) \<le> a \<and> a < 2 powr (of_int (k + 1))"
    unfolding powr_powi using assms by blast
  then have "2 powr (of_int k) \<le> a \<and> a < 2 powr (of_int k + 1)"
    by simp
  then show ?thesis
    using floor_log_eq_powr_iff[of a 2 k] pos by simp
qed

lemma grid_rescale:
  assumes "u \<le> e"
  shows "of_int m * 2 powi e = (of_int (m * 2 ^ nat (e - u)) :: real) * 2 powi u"
proof -
  have "(2::real) powi (u + (e - u)) = 2 powi u * 2 powi (e - u)"
    by (rule power_int_add) simp
  moreover have "(2::real) powi (e - u) = 2 ^ nat (e - u)"
    using assms by (intro power_int_nonneg_exp) simp
  ultimately have "(2::real) powi e = 2 powi u * 2 ^ nat (e - u)" by simp
  then show ?thesis by simp
qed

lemma ulp_exp_le:
  assumes "x = of_int m * 2 powi e" and "\<bar>m\<bar> < 2 ^ 53" and "- 1074 \<le> e" and "x \<noteq> 0"
  shows "ulp_exp x \<le> e"
proof -
  have a: "\<bar>x\<bar> = of_int \<bar>m\<bar> * 2 powi e"
    using assms(1) by (simp add: abs_mult)
  have pos: "0 < \<bar>x\<bar>" using assms(4) by simp
  have "(of_int \<bar>m\<bar> :: real) < 2 ^ 53"
    using assms(2) by (metis of_int_less_iff of_int_numeral of_int_power)
  then have "\<bar>x\<bar> < 2 ^ 53 * 2 powi e"
    unfolding a by (simp add: mult_strict_right_mono)
  also have "\<dots> = 2 powi (e + 53)"
    by (simp add: power_int_add mult.commute)
  finally have up: "\<bar>x\<bar> < 2 powi (e + 53)" .
  have "\<lfloor>log 2 \<bar>x\<bar>\<rfloor> < e + 53"
  proof (rule ccontr)
    assume "\<not> \<lfloor>log 2 \<bar>x\<bar>\<rfloor> < e + 53"
    then have "e + 53 \<le> \<lfloor>log 2 \<bar>x\<bar>\<rfloor>" by simp
    then have "(2::real) powi (e + 53) \<le> 2 powi \<lfloor>log 2 \<bar>x\<bar>\<rfloor>"
      by (intro power_int_increasing) simp_all
    also have "\<dots> \<le> \<bar>x\<bar>" using log2_bounds(1)[OF pos] .
    finally show False using up by simp
  qed
  with assms(3) show ?thesis by (simp add: ulp_exp_def)
qed

lemma round_real_on_grid:
  assumes "on_grid x"
  shows "round_real x = x"
proof (cases "x = 0")
  case True
  then show ?thesis by (simp add: round_real_def)
next
  case False
  from assms obtain m e :: int where g: "\<bar>m\<bar> < 2 ^ 53" "- 1074 \<le> e" "x = of_int m * 2 powi e"
    unfolding on_grid_def by blast
  have u: "ulp_exp x \<le> e" using ulp_exp_le[OF g(3) g(1) g(2) False] .
  have x: "x = of_int (m * 2 ^ nat (e - ulp_exp x)) * 2 powi ulp_exp x"
    using grid_rescale[OF u, of m] g(3) by simp
  have "x / 2 powi ulp_exp x = of_int (m * 2 ^ nat (e - ulp_exp x))"
    by (subst (1) x) simp
  then have "rne (x / 2 powi ulp_exp x) = m * 2 ^ nat (e - ulp_exp x)"
    by (simp only: rne_of_int)
  with x False show ?thesis by (simp add: round_real_def)
qed

lemma round_real_nonneg: "0 \<le> x \<Longrightarrow> 0 \<le> round_real x"
proof -
  assume "0 \<le> x"
  then have "of_int 0 \<le> x / 2 powi ulp_exp x" by simp
  then have "0 \<le> rne (x / 2 powi ulp_exp x)" by (rule rne_ge)
  then show ?thesis by (simp add: round_real_def)
qed

lemma round_real_nonpos: "x \<le> 0 \<Longrightarrow> round_real x \<le> 0"
proof -
  assume "x \<le> 0"
  then have "x / 2 powi ulp_exp x \<le> of_int 0" by (simp add: divide_le_0_iff)
  then have "rne (x / 2 powi ulp_exp x) \<le> 0" by (rule rne_le)
  then show ?thesis by (simp add: round_real_def mult_le_0_iff)
qed

lemma round_real_le:
  assumes "0 < b" and "on_grid b" and "x \<le> b"
  shows "round_real x \<le> b"
proof (cases "x \<le> 0")
  case True
  then have "round_real x \<le> 0" by (rule round_real_nonpos)
  with assms(1) show ?thesis by simp
next
  case False
  then have xpos: "0 < x" by simp
  from assms(2) obtain m e :: int where g: "\<bar>m\<bar> < 2 ^ 53" "- 1074 \<le> e" "b = of_int m * 2 powi e"
    unfolding on_grid_def by blast
  have "ulp_exp b \<le> e" using ulp_exp_le[OF g(3) g(1) g(2)] assms(1) by simp
  moreover have "ulp_exp x \<le> ulp_exp b"
  proof -
    have "log 2 \<bar>x\<bar> \<le> log 2 \<bar>b\<bar>" using xpos assms(1,3) by simp
    then have "\<lfloor>log 2 \<bar>x\<bar>\<rfloor> \<le> \<lfloor>log 2 \<bar>b\<bar>\<rfloor>" by (rule floor_mono)
    then show ?thesis by (simp add: ulp_exp_def)
  qed
  ultimately have u: "ulp_exp x \<le> e" by simp
  let ?n = "m * 2 ^ nat (e - ulp_exp x)"
  have b: "b = of_int ?n * 2 powi ulp_exp x"
    using grid_rescale[OF u, of m] g(3) by simp
  have "x / 2 powi ulp_exp x \<le> b / 2 powi ulp_exp x"
    using assms(3) by (simp add: divide_right_mono)
  also have "b / 2 powi ulp_exp x = of_int ?n"
    by (subst (1) b) simp
  finally have "rne (x / 2 powi ulp_exp x) \<le> ?n" by (rule rne_le)
  then have "(of_int (rne (x / 2 powi ulp_exp x)) :: real) \<le> of_int ?n" by (simp only: of_int_le_iff)
  then have "(of_int (rne (x / 2 powi ulp_exp x)) :: real) * 2 powi ulp_exp x
               \<le> of_int ?n * 2 powi ulp_exp x"
    by (intro mult_right_mono) simp_all
  with b xpos show ?thesis by (simp add: round_real_def)
qed

lemma on_gridI:
  "\<bar>m\<bar> < 2 ^ 53 \<Longrightarrow> - 1074 \<le> e \<Longrightarrow> x = of_int m * 2 powi e \<Longrightarrow> on_grid x"
  unfolding on_grid_def by blast

lemma on_grid_DBL_MAX: "on_grid DBL_MAX"
  unfolding on_grid_def DBL_MAX_def
  by (rule exI[of _ "2 ^ 53 - 1"], rule exI[of _ 971]) simp

lemma DBL_MAX_pos: "0 < DBL_MAX"
  by (simp add: DBL_MAX_def)

lemma on_grid_of_int: "\<bar>n\<bar> < 2 ^ 53 \<Longrightarrow> on_grid (of_int n)"
  unfolding on_grid_def by (rule exI[of _ n], rule exI[of _ 0]) simp

lemma on_grid_pow2: "- 1074 \<le> k \<Longrightarrow> on_grid (2 powi k)"
  unfolding on_grid_def by (rule exI[of _ 1], rule exI[of _ k]) simp

lemma representable_DBL_MAX: "representable DBL_MAX" "representable DBL_LOWEST"
  using on_grid_DBL_MAX DBL_MAX_pos
  unfolding representable_def DBL_LOWEST_def on_grid_def
  by (simp, metis (no_types, opaque_lifting) abs_minus_cancel mult_minus_left of_int_minus order_refl abs_of_pos)

lemma round_to_double_representable:
  "representable x \<Longrightarrow> round_to_double x = Fin x"
  by (auto simp: representable_def round_to_double_def round_real_on_grid)

lemma round_to_double_overflow_neg:
  "round_to_double (DBL_LOWEST - DBL_MAX) = MinusInfinity"
proof -
  have "DBL_LOWEST - DBL_MAX = of_int (- (2 ^ 53 - 1)) * 2 powi 972"
    by (simp add: DBL_MAX_def DBL_LOWEST_def)
  moreover have "\<bar>- (2 ^ 53 - 1) :: int\<bar> < 2 ^ 53" by simp
  ultimately have "on_grid (DBL_LOWEST - DBL_MAX)"
    by (intro on_gridI[of "- (2 ^ 53 - 1)" 972]) simp_all
  then have "round_real (DBL_LOWEST - DBL_MAX) = DBL_LOWEST - DBL_MAX"
    by (rule round_real_on_grid)
  then show ?thesis
    using DBL_MAX_pos by (simp add: round_to_double_def DBL_LOWEST_def)
qed

lemma round_to_double_overflow_pos:
  "round_to_double (DBL_MAX + DBL_MAX) = PlusInfinity"
proof -
  have "DBL_MAX + DBL_MAX = of_int (2 ^ 53 - 1) * 2 powi 972"
    by (simp add: DBL_MAX_def)
  moreover have "\<bar>2 ^ 53 - 1 :: int\<bar> < 2 ^ 53" by simp
  ultimately have "on_grid (DBL_MAX + DBL_MAX)"
    by (intro on_gridI[of "2 ^ 53 - 1" 972]) simp_all
  then have "round_real (DBL_MAX + DBL_MAX) = DBL_MAX + DBL_MAX"
    by (rule round_real_on_grid)
  then show ?thesis
    using DBL_MAX_pos by (simp add: round_to_double_def)
qed

lemma round_to_double_bounded:
  assumes "0 \<le> x" and "x \<le> b" and "0 < b" and "representable b"
  shows "\<exists>r. round_to_double x = Fin r \<and> 0 \<le> r \<and> r \<le> b"
proof -
  have "round_real x \<le> b" using assms(3,4,2) by (auto simp: representable_def intro: round_real_le)
  moreover have "0 \<le> round_real x" using assms(1) by (rule round_real_nonneg)
  moreover have "b \<le> DBL_MAX" using assms(4) by (simp add: representable_def abs_le_iff)
  ultimately show ?thesis
    using DBL_MAX_pos by (simp add: round_to_double_def)
qed

lemma round_real_near_max:
  assumes "DBL_MAX - 2 ^ 970 < x" and "x \<le> DBL_MAX"
  shows "round_real x = DBL_MAX"
proof -
  have lo: "2 powi 1023 \<le> \<bar>x\<bar>" and hi: "\<bar>x\<bar> < 2 powi (1023 + 1)"
    using assms by (simp_all add: DBL_MAX_def)
  have "\<lfloor>log 2 \<bar>x\<bar>\<rfloor> = 1023" using lo hi by (rule log2_unique)
  then have u: "ulp_exp x = 971" by (simp add: ulp_exp_def)
  have "\<bar>x / 2 ^ 971 - of_int (2 ^ 53 - 1)\<bar> < 1 / 2"
    using assms by (simp add: DBL_MAX_def field_simps abs_less_iff)
  then have "rne (x / 2 ^ 971) = 2 ^ 53 - 1" by (rule rne_near)
  moreover have "x \<noteq> 0" using assms(1) by (auto simp: DBL_MAX_def)
  ultimately show ?thesis by (simp add: round_real_def u DBL_MAX_def)
qed

lemma round_real_near_lowest:
  assumes "- DBL_MAX \<le> x" and "x < - DBL_MAX + 2 ^ 970"
  shows "round_real x = - DBL_MAX"
proof -
  have lo: "2 powi 1023 \<le> \<bar>x\<bar>" and hi: "\<bar>x\<bar> < 2 powi (1023 + 1)"
    using assms by (simp_all add: DBL_MAX_def)
  have "\<lfloor>log 2 \<bar>x\<bar>\<rfloor> = 1023" using lo hi by (rule log2_unique)
  then have u: "ulp_exp x = 971" by (simp add: ulp_exp_def)
  have "\<bar>x / 2 ^ 971 - of_int (- (2 ^ 53 - 1))\<bar> < 1 / 2"
    using assms by (simp add: DBL_MAX_def field_simps abs_less_iff)
  then have "rne (x / 2 ^ 971) = - (2 ^ 53 - 1)" by (rule rne_near)
  moreover have "x \<noteq> 0" using assms(2) by (auto simp: DBL_MAX_def)
  ultimately show ?thesis by (simp add: round_real_def u DBL_MAX_def)
qed

text \<open>
  Small integers are doubles, adding or subtracting \<open>0.0\<close> changes no finite double,
  \<open>0.0\<close> times a finite double is \<open>0.0\<close>, and the literal \<^verbatim>\<open>1e-6\<close> is a positive
  finite double below \<open>2\<^sup>-\<^sup>1\<^sup>9\<close>.
\<close>

lemma representable_of_int: "\<bar>n\<bar> < 2 ^ 53 \<Longrightarrow> representable (of_int n)"
proof -
  assume n: "\<bar>n\<bar> < 2 ^ 53"
  then have "\<bar>real_of_int n\<bar> < 2 ^ 53"
    by (metis of_int_abs of_int_less_iff of_int_numeral of_int_power)
  moreover have "(2::real) ^ 53 \<le> DBL_MAX" by (simp add: DBL_MAX_def)
  ultimately show ?thesis using on_grid_of_int[OF n] by (simp add: representable_def)
qed

lemma representable_small [simp]:
  "representable 0" "representable 1" "representable 2" "representable 3"
  using representable_of_int[of 0] representable_of_int[of 1]
    representable_of_int[of 2] representable_of_int[of 3]
  by simp_all

lemma representable_minus: "representable x \<Longrightarrow> representable (- x)"
proof -
  assume r: "representable x"
  then obtain m e :: int where g: "\<bar>m\<bar> < 2 ^ 53" "- 1074 \<le> e" "x = of_int m * 2 powi e"
    unfolding representable_def on_grid_def by blast
  have "on_grid (- x)"
    by (rule on_gridI[of "- m" e]) (use g in simp_all)
  with r show ?thesis by (simp add: representable_def)
qed

lemma fadd_zero: "finite_double x \<Longrightarrow> fadd x (Fin 0) = x"
  by (cases x) (simp_all add: round_to_double_representable)

lemma fsub_zero: "finite_double x \<Longrightarrow> fsub x (Fin 0) = x"
  by (cases x) (simp_all add: fsub_def round_to_double_representable)

lemma fmul_zero: "fmul (Fin 0) (Fin m) = Fin 0"
  by (simp add: round_to_double_representable)

lemma EPS_bounds: "\<exists>e. EPS = Fin e \<and> 0 \<le> e \<and> e \<le> 2 powi (- 19)"
proof -
  have "on_grid (2 powi (- 19))" by (rule on_grid_pow2) simp
  moreover have "\<bar>(2::real) powi (- 19)\<bar> \<le> DBL_MAX"
    by (simp add: DBL_MAX_def power_int_minus field_simps)
  ultimately have r: "representable (2 powi (- 19))"
    by (simp only: representable_def simp_thms)
  have "(1::real) / 10 ^ 6 \<le> 2 powi (- 19)"
    by (simp add: power_int_minus field_simps)
  then show ?thesis
    unfolding EPS_def by (intro round_to_double_bounded r) simp_all
qed

section \<open>Properties of the overlap predicate\<close>

lemma overlapping_loop_sym:
  "overlapping_loop dims i a b = overlapping_loop dims i b a"
proof (induction dims i a b rule: overlapping_loop.induct)
  case (1 dims i a b)
  show ?case
    apply (subst overlapping_loop.simps)
    apply (subst (2) overlapping_loop.simps)
    using 1 by auto
qed

text \<open>
  On boxes with at least \<open>dims\<close> entries the loop returns, and it returns true exactly
  when no dimension from \<open>i\<close> on separates the boxes.
\<close>

lemma overlapping_loop_char:
  "dims \<le> length a \<Longrightarrow> dims \<le> length b \<Longrightarrow>
   overlapping_loop dims i a b =
     Inr (\<forall>j. i \<le> j \<and> j < dims \<longrightarrow>
        \<not> ((fst (a ! j) < fst (b ! j) \<and> snd (a ! j) < fst (b ! j))
           \<or> (fst (b ! j) < fst (a ! j) \<and> snd (b ! j) < fst (a ! j))))"
proof (induction dims i a b rule: overlapping_loop.induct)
  case (1 dims i a b)
  show ?case
  proof (cases "i < dims")
    case False
    then show ?thesis by (subst overlapping_loop.simps) auto
  next
    case True
    show ?thesis
    proof (cases "(fst (a ! i) < fst (b ! i) \<and> snd (a ! i) < fst (b ! i))
           \<or> (fst (b ! i) < fst (a ! i) \<and> snd (b ! i) < fst (a ! i))")
      case sep: True
      with True 1(2,3) show ?thesis
        by (subst overlapping_loop.simps) auto
    next
      case nosep: False
      have ih: "overlapping_loop dims (Suc i) a b = Inr (\<forall>j. Suc i \<le> j \<and> j < dims \<longrightarrow>
        \<not> ((fst (a ! j) < fst (b ! j) \<and> snd (a ! j) < fst (b ! j))
           \<or> (fst (b ! j) < fst (a ! j) \<and> snd (b ! j) < fst (a ! j))))"
        using 1 True nosep by simp
      have step: "overlapping_loop dims i a b = overlapping_loop dims (Suc i) a b"
        using True nosep 1(2,3) by (subst overlapping_loop.simps) auto
      have "(\<forall>j. i \<le> j \<and> j < dims \<longrightarrow>
        \<not> ((fst (a ! j) < fst (b ! j) \<and> snd (a ! j) < fst (b ! j))
           \<or> (fst (b ! j) < fst (a ! j) \<and> snd (b ! j) < fst (a ! j))))
         = (\<forall>j. Suc i \<le> j \<and> j < dims \<longrightarrow>
        \<not> ((fst (a ! j) < fst (b ! j) \<and> snd (a ! j) < fst (b ! j))
           \<or> (fst (b ! j) < fst (a ! j) \<and> snd (b ! j) < fst (a ! j))))"
        (is "?L = ?R")
      proof
        assume ?L then show ?R by (simp add: Suc_le_eq)
      next
        assume r: ?R
        show ?L
        proof (intro allI impI)
          fix j assume j: "i \<le> j \<and> j < dims"
          show "\<not> ((fst (a ! j) < fst (b ! j) \<and> snd (a ! j) < fst (b ! j))
           \<or> (fst (b ! j) < fst (a ! j) \<and> snd (b ! j) < fst (a ! j)))"
          proof (cases "j = i")
            case True
            with nosep show ?thesis by simp
          next
            case False
            with j have "Suc i \<le> j \<and> j < dims" by simp
            with r show ?thesis by blast
          qed
        qed
      qed
      with step ih show ?thesis by simp
    qed
  qed
qed

lemma overlapping_returns:
  "dims \<le> length a \<Longrightarrow> dims \<le> length b \<Longrightarrow> \<exists>ov. overlapping dims a b = Inr ov"
  by (simp add: overlapping_def overlapping_loop_char)

text \<open>
  Claim C6. The overlap predicate is symmetric: \<open>overlapping(A, B)\<close> and
  \<open>overlapping(B, A)\<close> are the same, for all boxes \<open>A\<close> and \<open>B\<close>. The test of one
  dimension is a disjunction whose two sides swap with the arguments, so this holds for
  any comparison \<open><\<close>, and also where the source reads past the end of a box.
\<close>

theorem overlapping_symmetric:
  "overlapping dims a b = overlapping dims b a"
  unfolding overlapping_def by (rule overlapping_loop_sym)

theorem overlapping_symmetric_witness:
  "overlapping 2 [(Fin (1 / 2), Fin (3 / 2)), (Fin 0, Fin 1)] [(Fin 0, Fin 1), (Fin 0, Fin 1)]
     = Inr True
   \<and> overlapping 2 [(Fin 0, Fin 1), (Fin 0, Fin 1)] [(Fin (1 / 2), Fin (3 / 2)), (Fin 0, Fin 1)]
     = Inr True"
proof -
  have "overlapping 2 [(Fin 0, Fin 1), (Fin 0, Fin 1)]
          [(Fin (1 / 2), Fin (3 / 2)), (Fin 0, Fin 1)] = Inr True"
    by (simp add: overlapping_def overlapping_loop.simps)
  with overlapping_symmetric
         [of 2 "[(Fin (1 / 2), Fin (3 / 2)), (Fin 0, Fin 1)]" "[(Fin 0, Fin 1), (Fin 0, Fin 1)]"]
  show ?thesis by simp
qed

text \<open>
  Claim C7. The overlap predicate is reflexive on valid boxes: a box of the instance's
  dimension with \<open>lo \<le> hi\<close> in every dimension, point boxes with \<open>lo = hi\<close> included,
  overlaps itself.
\<close>

theorem overlapping_reflexive_valid:
  fixes a :: "('a::preorder) BoundingBox"
  assumes "length a = dims" and "\<forall>d<dims. fst (a ! d) \<le> snd (a ! d)"
  shows "overlapping dims a a = Inr True"
  unfolding overlapping_def using assms(1) by (simp add: overlapping_loop_char)

theorem overlapping_reflexive_valid_witness:
  "overlapping 2 [(Fin 1, Fin 1), (Fin 2, Fin 2)] [(Fin 1, Fin 1), (Fin 2, Fin 2)] = Inr True"
proof -
  have v: "\<forall>d<2. fst ([(Fin 1, Fin 1), (Fin 2, Fin 2)] ! d)
                  \<le> snd ([(Fin 1, Fin 1), (Fin 2, Fin 2)] ! d)"
    by (simp add: less_Suc_eq numeral_2_eq_2)
  have l: "length [(Fin 1, Fin 1), (Fin 2, Fin 2)] = 2" by simp
  from overlapping_reflexive_valid [OF l v] show ?thesis .
qed

text \<open>
  Claim C10. Reflexivity needs no validity: every box with at least \<open>dims\<close> entries
  overlaps itself, sentinel and inverted boxes (\<open>hi < lo\<close>) included, because each
  comparison of the test is strict and compares a lower bound with itself or is
  conjoined with such a comparison.
\<close>

theorem overlapping_reflexive_always:
  fixes a :: "('a::preorder) BoundingBox"
  assumes "dims \<le> length a"
  shows "overlapping dims a a = Inr True"
  unfolding overlapping_def using assms by (simp add: overlapping_loop_char)

theorem overlapping_reflexive_always_witness:
  "overlapping 2 [(PlusInfinity, MinusInfinity), (Fin 3, Fin 2)]
     [(PlusInfinity, MinusInfinity), (Fin 3, Fin 2)] = Inr True"
  using overlapping_reflexive_always [of 2 "[(PlusInfinity, MinusInfinity), (Fin 3, Fin 2)]"]
  by simp

text \<open>
  Claim C8. The intervals are closed: two boxes whose intervals share a point in every
  dimension (the lower bound of each is at most the upper bound of the other) overlap, so
  equality at a boundary counts as overlap. Scenario E5 of the specification, the boxes
  \<open>[[0, 1]]\<close> and \<open>[[1, 2]]\<close> in one dimension, is the witness.
\<close>

theorem overlapping_closed_intervals:
  fixes a b :: "('a::preorder) BoundingBox"
  assumes "length a = dims" and "length b = dims"
    and "\<forall>d<dims. fst (a ! d) \<le> snd (b ! d) \<and> fst (b ! d) \<le> snd (a ! d)"
  shows "overlapping dims a b = Inr True"
proof -
  have "\<forall>j. 0 \<le> j \<and> j < dims \<longrightarrow>
        \<not> ((fst (a ! j) < fst (b ! j) \<and> snd (a ! j) < fst (b ! j))
           \<or> (fst (b ! j) < fst (a ! j) \<and> snd (b ! j) < fst (a ! j)))"
    using assms(3) by (auto simp: less_le_not_le)
  with assms(1,2) show ?thesis
    by (simp add: overlapping_def overlapping_loop_char)
qed

theorem overlapping_boundary_touch_E5:
  "overlapping 1 [(Fin 0, Fin 1)] [(Fin 1, Fin 2)] = Inr True"
proof -
  have "\<forall>d<1. fst ([(Fin 0, Fin 1)] ! d) \<le> snd ([(Fin 1, Fin 2)] ! d)
             \<and> fst ([(Fin 1, Fin 2)] ! d) \<le> snd ([(Fin 0, Fin 1)] ! d)"
    by (simp add: less_eq_double_def)
  from overlapping_closed_intervals [OF _ _ this] show ?thesis by simp
qed

text \<open>
  Claim C5. A sentinel box, with lower bound \<open>+\<infinity>\<close> and upper bound \<open>-\<infinity>\<close> in every
  dimension, overlaps no valid box: for a box \<open>b\<close> of real (finite) bounds with
  \<open>lo \<le> hi\<close> in each of its \<open>dims > 0\<close> dimensions, the predicate returns false in
  both argument orders.
\<close>

theorem sentinel_never_overlaps:
  assumes "0 < dims" and "length b = dims" and "\<forall>d<dims. fst (b ! d) \<le> snd (b ! d)"
  shows "overlapping dims (sentinel_inf dims) (finite_box b) = Inr False
       \<and> overlapping dims (finite_box b) (sentinel_inf dims) = Inr False"
proof -
  have "overlapping dims (finite_box b) (sentinel_inf dims) = Inr False"
    unfolding overlapping_def using assms
    by (auto simp add: overlapping_loop_char sentinel_inf_def finite_box_def intro!: exI[of _ 0])
  then show ?thesis
    using overlapping_loop_sym [of dims 0 "sentinel_inf dims"] by (simp add: overlapping_def)
qed

theorem sentinel_never_overlaps_witness:
  "overlapping 2 (sentinel_inf 2) (finite_box [(0, 1), (0, 1)]) = Inr False
   \<and> overlapping 2 (finite_box [(0, 1), (0, 1)]) (sentinel_inf 2) = Inr False"
proof -
  have v: "\<forall>d<2. fst ([(0, 1), (0, 1 :: real)] ! d) \<le> snd ([(0, 1), (0, 1 :: real)] ! d)"
    by (simp add: less_Suc_eq numeral_2_eq_2)
  from sentinel_never_overlaps [OF _ _ v] show ?thesis by simp
qed

text \<open>
  The box that the constructor builds has the bounds (max, lowest) rather than infinite
  ones. It overlaps no valid box whose upper bounds lie below max, and it does overlap a
  box that reaches max.
\<close>

lemma constructor_sentinel_never_overlaps:
  fixes b :: "double BoundingBox"
  assumes "0 < dims" and "length b = dims"
    and "\<forall>d<dims. fst (b ! d) \<le> snd (b ! d) \<and> snd (b ! d) < Fin DBL_MAX"
  shows "overlapping dims (replicate dims (Fin DBL_MAX, Fin DBL_LOWEST)) b = Inr False"
proof -
  from assms(1,3) have "fst (b ! 0) \<le> snd (b ! 0)" and "snd (b ! 0) < Fin DBL_MAX" by auto
  then have "fst (b ! 0) < Fin DBL_MAX \<and> snd (b ! 0) < Fin DBL_MAX" by auto
  with assms(1,2) show ?thesis
    unfolding overlapping_def
    by (auto simp add: overlapping_loop_char intro!: exI[of _ 0])
qed

lemma constructor_sentinel_overlaps_at_max:
  "overlapping 1 [(Fin DBL_MAX, Fin DBL_LOWEST)] [(Fin 0, Fin DBL_MAX)] = Inr True"
  by (simp add: overlapping_def overlapping_loop.simps DBL_MAX_def DBL_LOWEST_def)

section \<open>Properties of prepareBoundingBox\<close>

text \<open>
  The merge loop returns on boxes with at least \<open>dims\<close> entries and selects the smaller
  lower and the larger upper bound; on finite doubles this is the union of the boxes.
  The dilation loop moves both bounds of every dimension by the rounded product.
\<close>

lemma merge_loop_char:
  "dims \<le> length other \<Longrightarrow> dims \<le> length b \<Longrightarrow>
   \<exists>b'. merge_loop dims d other b = Inr b' \<and> length b' = length b \<and>
     (\<forall>j<length b. b' ! j =
        (if d \<le> j \<and> j < dims
         then (if fst (other ! j) < fst (b ! j) then fst (other ! j) else fst (b ! j),
               if snd (b ! j) < snd (other ! j) then snd (other ! j) else snd (b ! j))
         else b ! j))"
proof (induction dims d other b rule: merge_loop.induct)
  case (1 dims d other b)
  show ?case
  proof (cases "d < dims")
    case False
    then show ?thesis by (subst merge_loop.simps) auto
  next
    case True
    define b1 where "b1 = (if fst (b ! d) > fst (other ! d)
                      then b[d := (fst (other ! d), snd (b ! d))] else b)"
    define b2 where "b2 = (if snd (b1 ! d) < snd (other ! d)
                      then b1[d := (fst (b1 ! d), snd (other ! d))] else b1)"
    have inr: "d < length other" "d < length b" using True 1(2,3) by auto
    have len: "length b2 = length b" by (simp add: b1_def b2_def)
    have b2d: "b2 ! d =
        (if fst (other ! d) < fst (b ! d) then fst (other ! d) else fst (b ! d),
         if snd (b ! d) < snd (other ! d) then snd (other ! d) else snd (b ! d))"
      using inr by (auto simp: b1_def b2_def prod_eq_iff)
    have b2o: "\<And>j. j \<noteq> d \<Longrightarrow> b2 ! j = b ! j"
      by (simp add: b1_def b2_def)
    have step: "merge_loop dims d other b = merge_loop dims (Suc d) other b2"
      using True inr by (subst merge_loop.simps) (simp add: b1_def b2_def Let_def)
    have "\<exists>b'. merge_loop dims (Suc d) other b2 = Inr b' \<and> length b' = length b2 \<and>
     (\<forall>j<length b2. b' ! j =
        (if Suc d \<le> j \<and> j < dims
         then (if fst (other ! j) < fst (b2 ! j) then fst (other ! j) else fst (b2 ! j),
               if snd (b2 ! j) < snd (other ! j) then snd (other ! j) else snd (b2 ! j))
         else b2 ! j))"
      using 1(1)[OF True _ b1_def b2_def] inr 1(2,3) len by simp
    then obtain b' where b': "merge_loop dims (Suc d) other b2 = Inr b'" "length b' = length b2"
      "\<forall>j<length b2. b' ! j =
        (if Suc d \<le> j \<and> j < dims
         then (if fst (other ! j) < fst (b2 ! j) then fst (other ! j) else fst (b2 ! j),
               if snd (b2 ! j) < snd (other ! j) then snd (other ! j) else snd (b2 ! j))
         else b2 ! j)" by blast
    have "\<forall>j<length b. b' ! j =
        (if d \<le> j \<and> j < dims
         then (if fst (other ! j) < fst (b ! j) then fst (other ! j) else fst (b ! j),
               if snd (b ! j) < snd (other ! j) then snd (other ! j) else snd (b ! j))
         else b ! j)"
    proof (intro allI impI)
      fix j assume j: "j < length b"
      show "b' ! j = (if d \<le> j \<and> j < dims
         then (if fst (other ! j) < fst (b ! j) then fst (other ! j) else fst (b ! j),
               if snd (b ! j) < snd (other ! j) then snd (other ! j) else snd (b ! j))
         else b ! j)"
      proof (cases "j = d")
        case True
        then show ?thesis using b'(3) j len b2d \<open>d < dims\<close> by simp
      next
        case False
        then show ?thesis using b'(3) j len b2o[of j] by (auto simp: Suc_le_eq)
      qed
    qed
    with step b'(1,2) len show ?thesis by simp
  qed
qed

lemma merge_loop_returns:
  assumes "dims \<le> length other" and "length b = dims"
  shows "\<exists>b'. merge_loop dims 0 other b = Inr b' \<and> length b' = dims"
  using merge_loop_char[of dims other b 0] assms by auto

lemma select_min_max:
  "(if Fin c < Fin a then Fin c else Fin a) = min (Fin a) (Fin c)"
  "(if Fin a < Fin c then Fin c else Fin a) = max (Fin a) (Fin c)"
  by (auto simp: min_def max_def less_eq_double_def)

lemma finite_doubleE:
  assumes "finite_double x"
  obtains r where "x = Fin r" and "representable r"
  using assms by (cases x) simp_all

lemma finite_double_box_nth:
  "finite_double_box b \<Longrightarrow> j < length b \<Longrightarrow>
   finite_double (fst (b ! j)) \<and> finite_double (snd (b ! j))"
  by (simp add: finite_double_box_def list_all_length)

lemma merge_loop_unite:
  assumes "dims \<le> length other" and "length b = dims"
    and "finite_double_box b" and "finite_double_box other"
  shows "merge_loop dims 0 other b = Inr (unite b (take dims other))"
proof -
  from merge_loop_char[of dims other b 0] assms(1,2)
  obtain b' where b': "merge_loop dims 0 other b = Inr b'" "length b' = length b"
     "\<forall>j<length b. b' ! j =
        (if 0 \<le> j \<and> j < dims
         then (if fst (other ! j) < fst (b ! j) then fst (other ! j) else fst (b ! j),
               if snd (b ! j) < snd (other ! j) then snd (other ! j) else snd (b ! j))
         else b ! j)" by auto
  have "b' = unite b (take dims other)"
  proof (rule nth_equalityI)
    show "length b' = length (unite b (take dims other))"
      using b'(2) assms(1,2) by (simp add: unite_def)
    fix j assume "j < length b'"
    then have j: "j < dims" using b'(2) assms(2) by simp
    from finite_double_box_nth[OF assms(3), of j] j assms(2)
    obtain bl bh where b: "fst (b ! j) = Fin bl" "snd (b ! j) = Fin bh"
      by (auto elim!: finite_doubleE)
    from finite_double_box_nth[OF assms(4), of j] j assms(1)
    obtain ol oh where ot: "fst (other ! j) = Fin ol" "snd (other ! j) = Fin oh"
      by (auto elim!: finite_doubleE)
    have "b' ! j = (if fst (other ! j) < fst (b ! j) then fst (other ! j) else fst (b ! j),
               if snd (b ! j) < snd (other ! j) then snd (other ! j) else snd (b ! j))"
      using b'(3) j assms(2) by simp
    then have "b' ! j = (min (fst (b ! j)) (fst (other ! j)), max (snd (b ! j)) (snd (other ! j)))"
      by (simp only: b ot select_min_max)
    then show "b' ! j = unite b (take dims other) ! j"
      using j assms(1,2) by (simp add: unite_def)
  qed
  with b'(1) show ?thesis by simp
qed

lemma length_unite: "length (unite a b) = min (length a) (length b)"
  by (simp add: unite_def)

lemma finite_double_min_max:
  "finite_double x \<Longrightarrow> finite_double y \<Longrightarrow> finite_double (min x y) \<and> finite_double (max x y)"
  by (auto simp: min_def max_def)

lemma finite_double_box_unite:
  assumes "finite_double_box a" and "finite_double_box b"
  shows "finite_double_box (unite a b)"
  unfolding finite_double_box_def list_all_length
proof (intro allI impI)
  fix j assume j: "j < length (unite a b)"
  then have ja: "j < length a" and jb: "j < length b" by (simp_all add: unite_def)
  from finite_double_box_nth[OF assms(1) ja] finite_double_box_nth[OF assms(2) jb]
  show "finite_double (fst (unite a b ! j)) \<and> finite_double (snd (unite a b ! j))"
    using ja jb by (simp add: unite_def finite_double_min_max)
qed

lemma finite_double_box_take: "finite_double_box b \<Longrightarrow> finite_double_box (take n b)"
  unfolding finite_double_box_def list_all_length by simp

lemma finite_double_box_sentinel:
  "finite_double_box (replicate dims (Fin DBL_MAX, Fin DBL_LOWEST))"
  by (simp add: finite_double_box_def list_all_length representable_DBL_MAX)

lemma enlarge_loop_char:
  "length (enlarge_loop dims d sf m b) = length b \<and>
     (\<forall>j<length b. enlarge_loop dims d sf m b ! j =
        (if d \<le> j \<and> j < dims
         then (fsub (fst (b ! j)) (fmul sf m), fadd (snd (b ! j)) (fmul sf m))
         else b ! j))"
proof (induction dims d sf m b rule: enlarge_loop.induct)
  case (1 dims d sf m b)
  show ?case
  proof (cases "d < dims")
    case False
    then show ?thesis by (subst (1 2) enlarge_loop.simps) auto
  next
    case True
    define b1 where "b1 = b[d := (fst (b ! d), fadd (snd (b ! d)) (fmul sf m))]"
    define b2 where "b2 = b1[d := (fsub (fst (b1 ! d)) (fmul sf m), snd (b1 ! d))]"
    have step: "enlarge_loop dims d sf m b = enlarge_loop dims (Suc d) sf m b2"
      using True by (subst enlarge_loop.simps) (simp add: b1_def b2_def Let_def)
    have len: "length b2 = length b" by (simp add: b1_def b2_def)
    have ih: "length (enlarge_loop dims (Suc d) sf m b2) = length b2 \<and>
     (\<forall>j<length b2. enlarge_loop dims (Suc d) sf m b2 ! j =
        (if Suc d \<le> j \<and> j < dims
         then (fsub (fst (b2 ! j)) (fmul sf m), fadd (snd (b2 ! j)) (fmul sf m))
         else b2 ! j))"
      using 1[OF True b1_def b2_def] .
    have b2d: "d < length b \<Longrightarrow>
        b2 ! d = (fsub (fst (b ! d)) (fmul sf m), fadd (snd (b ! d)) (fmul sf m))"
      by (simp add: b1_def b2_def)
    have b2o: "\<And>j. j \<noteq> d \<Longrightarrow> b2 ! j = b ! j"
      by (simp add: b1_def b2_def)
    show ?thesis
      unfolding step using ih len True b2d b2o
      by (auto simp: Suc_le_eq le_less)
  qed
qed

lemma length_enlarge_loop: "length (enlarge_loop dims d sf m b) = length b"
  using enlarge_loop_char by blast

lemma enlarge_loop_fixed:
  assumes "\<forall>j<length b. fsub (fst (b ! j)) (fmul sf m) = fst (b ! j)
                        \<and> fadd (snd (b ! j)) (fmul sf m) = snd (b ! j)"
  shows "enlarge_loop dims 0 sf m b = b"
  using enlarge_loop_char[of dims 0 sf m b] assms
  by (intro nth_equalityI) auto

lemma maxSideLength_loop_finite:
  assumes "dims \<le> length b" and "finite_double_box b" and "sides_within_max b"
  shows "\<exists>r. maxSideLength_loop dims d b (Fin m) = Fin r"
  using assms
proof (induction dims d b "Fin m" arbitrary: m rule: maxSideLength_loop.induct)
  case (1 dims d b)
  show ?case
  proof (cases "d < dims")
    case False
    then show ?thesis by (subst maxSideLength_loop.simps) simp
  next
    case True
    with 1(2) have dl: "d < length b" by simp
    from finite_double_box_nth[OF 1(3) dl]
    obtain l h where lh: "fst (b ! d) = Fin l" "snd (b ! d) = Fin h"
      by (auto elim!: finite_doubleE)
    from 1(4) dl have "the_real (snd (b ! d)) - the_real (fst (b ! d)) \<le> DBL_MAX"
      by (simp add: sides_within_max_def list_all_length)
    then have "h - l \<le> DBL_MAX" by (simp add: lh)
    then have "round_real (h - l) \<le> DBL_MAX"
      using DBL_MAX_pos on_grid_DBL_MAX by (intro round_real_le)
    then have side: "fsub (Fin h) (Fin l) = MinusInfinity
                   \<or> (\<exists>r. fsub (Fin h) (Fin l) = Fin r)"
      by (simp add: fsub_def round_to_double_def)
    then have "\<exists>m'. std_max (Fin m) (fsub (Fin h) (Fin l)) = Fin m'"
      by (cases "fsub (Fin h) (Fin l)") (auto simp: std_max_def)
    then obtain m' where m': "std_max (Fin m) (fsub (snd (b ! d)) (fst (b ! d))) = Fin m'"
      unfolding lh by blast
    from 1(1)[OF True m' 1(2,3,4)]
    obtain r where "maxSideLength_loop dims (Suc d) b (Fin m') = Fin r" by blast
    with True m' show ?thesis by (subst maxSideLength_loop.simps) simp
  qed
qed

lemma maxSideLength_loop_floor:
  assumes "\<forall>j<dims. \<not> m < fsub (snd (b ! j)) (fst (b ! j))"
  shows "maxSideLength_loop dims d b m = m"
  using assms
proof (induction dims d b m rule: maxSideLength_loop.induct)
  case (1 dims d b m)
  show ?case
  proof (cases "d < dims")
    case False
    then show ?thesis by (subst maxSideLength_loop.simps) simp
  next
    case True
    with 1(2) have "std_max m (fsub (snd (b ! d)) (fst (b ! d))) = m"
      by (simp add: std_max_def)
    with 1 True show ?thesis by (subst maxSideLength_loop.simps) simp
  qed
qed

lemma resize_fresh: "resize dims v (replicate dims v) = replicate dims v"
  by (simp add: resize_def)

lemma length_resize: "length (resize n v xs) = n"
  by (simp add: resize_def)

text \<open>
  Rounding a positive real that is not below the smallest positive double gives a
  positive double; the literal \<^verbatim>\<open>1e-6\<close> is therefore positive, and adding it to zero
  does not give zero.
\<close>

lemma round_real_ge_min:
  assumes "2 powi (- 1074) \<le> x"
  shows "2 powi (- 1074) \<le> round_real x"
proof -
  have xpos: "0 < x"
  proof -
    have "(0::real) < 2 powi (- 1074)" by simp
    with assms show ?thesis by linarith
  qed
  have u: "2 powi ulp_exp x \<le> x"
  proof (cases "\<lfloor>log 2 \<bar>x\<bar>\<rfloor> - 52 \<le> - 1074")
    case True
    then have "ulp_exp x = - 1074" by (simp add: ulp_exp_def)
    with assms show ?thesis by simp
  next
    case False
    then have e: "ulp_exp x = \<lfloor>log 2 x\<rfloor> - 52" using xpos by (simp add: ulp_exp_def)
    have "(2::real) powi (\<lfloor>log 2 x\<rfloor> - 52) \<le> 2 powi \<lfloor>log 2 x\<rfloor>"
      by (intro power_int_increasing) simp_all
    also have "\<dots> \<le> x" using log2_bounds(1)[OF xpos] .
    finally show ?thesis by (simp only: e)
  qed
  have "of_int 1 \<le> x / 2 powi ulp_exp x"
    using u by (simp add: le_divide_eq)
  then have "1 \<le> rne (x / 2 powi ulp_exp x)" by (rule rne_ge)
  then have "(of_int 1 :: real) \<le> of_int (rne (x / 2 powi ulp_exp x))"
    by (simp only: of_int_le_iff)
  then have "1 * 2 powi ulp_exp x \<le> (of_int (rne (x / 2 powi ulp_exp x)) :: real) * 2 powi ulp_exp x"
    by (intro mult_right_mono) simp_all
  then have "2 powi ulp_exp x \<le> round_real x"
    using xpos by (simp add: round_real_def)
  moreover have "(2::real) powi (- 1074) \<le> 2 powi ulp_exp x"
    by (intro power_int_increasing) (simp_all add: ulp_exp_def)
  ultimately show ?thesis by linarith
qed

lemma EPS_pos: "\<exists>e. EPS = Fin e \<and> 2 powi (- 1074) \<le> e \<and> e \<le> 2 powi (- 19)"
proof -
  from EPS_bounds obtain e where e: "EPS = Fin e" "e \<le> 2 powi (- 19)" by blast
  have "(2::real) powi (- 1074) \<le> 1 / 10 ^ 6"
  proof -
    have "(2::real) powi (- 1074) \<le> 2 powi (- 20)"
      by (intro power_int_increasing) simp_all
    also have "\<dots> \<le> 1 / 10 ^ 6" by (simp add: power_int_minus field_simps)
    finally show ?thesis .
  qed
  then have "2 powi (- 1074) \<le> round_real (1 / 10 ^ 6)" by (rule round_real_ge_min)
  moreover have "e = round_real (1 / 10 ^ 6)"
    using e(1) unfolding EPS_def round_to_double_def by (simp split: if_splits)
  ultimately show ?thesis using e by blast
qed

lemma fadd_zero_EPS: "fadd (Fin 0) EPS \<noteq> Fin 0"
proof -
  from EPS_pos obtain e where e: "EPS = Fin e" "2 powi (- 1074) \<le> e" by blast
  have "2 powi (- 1074) \<le> round_real e" using e(2) by (rule round_real_ge_min)
  moreover have "(0::real) < 2 powi (- 1074)" by simp
  ultimately have "0 < round_real e" by linarith
  then show ?thesis by (simp add: e(1) round_to_double_def)
qed

lemma fneg_EPS: "fneg EPS \<noteq> Fin DBL_MAX"
proof -
  from EPS_bounds obtain e where e: "EPS = Fin e" "0 \<le> e" by blast
  have "- e \<noteq> DBL_MAX" using e(2) DBL_MAX_pos by linarith
  then show ?thesis by (simp add: e(1))
qed

text \<open>
  \<^verbatim>\<open>prepareBoundingBox\<close> with a safety factor of zero, on an instance as the constructor
  leaves it whose attached boxes are finite and whose merged box has no side longer than
  max: every side length is then a finite double or \<open>-\<infinity>\<close>, \<open>maxSideLength\<close> is finite,
  the dilation is \<open>0.0\<close>, and adding \<open>0.0\<close> changes no finite bound.
\<close>

lemma union_of_attached_finite:
  assumes "\<forall>b \<in> set (attached s). finite_double_box b"
  shows "finite_double_box (union_of_attached s)"
  using assms
  by (cases "fromMapping s"; cases "toMapping s")
     (simp_all add: attached_def union_of_attached_def finite_double_box_unite
        finite_double_box_take finite_double_box_sentinel)

lemma length_union_of_attached:
  assumes "\<forall>b \<in> set (attached s). dimensions s \<le> length b"
  shows "length (union_of_attached s) = dimensions s"
  using assms
  by (cases "fromMapping s"; cases "toMapping s")
     (simp_all add: attached_def union_of_attached_def length_unite)

lemma merge_attached:
  assumes "\<forall>b \<in> set (attached s). dimensions s \<le> length b \<and> finite_double_box b"
  shows "(case (case fromMapping s of
              None \<Rightarrow> Inr (replicate (dimensions s) (Fin DBL_MAX, Fin DBL_LOWEST))
            | Some other_bb \<Rightarrow> merge_loop (dimensions s) 0 other_bb
                                (replicate (dimensions s) (Fin DBL_MAX, Fin DBL_LOWEST))) of
        Inl e \<Rightarrow> Inl e
      | Inr b1 \<Rightarrow>
          (case (case toMapping s of
                   None \<Rightarrow> Inr b1
                 | Some other_bb \<Rightarrow> merge_loop (dimensions s) 0 other_bb b1) of
             Inl e \<Rightarrow> Inl e
           | Inr b2 \<Rightarrow> k b2)) = k (union_of_attached s)"
  using assms
  by (cases "fromMapping s"; cases "toMapping s")
     (simp_all add: attached_def union_of_attached_def merge_loop_unite length_unite
        finite_double_box_unite finite_double_box_take finite_double_box_sentinel)

lemma prepareBoundingBox_zero_factor:
  assumes "bb s = replicate (dimensions s) (Fin DBL_MAX, Fin DBL_LOWEST)"
    and "safetyFactor s = Fin 0"
    and "\<forall>b \<in> set (attached s). dimensions s \<le> length b \<and> finite_double_box b"
    and "sides_within_max (union_of_attached s)"
  shows "prepareBoundingBox s = Inr (s\<lparr>bb := union_of_attached s\<rparr>)"
proof -
  let ?U = "union_of_attached s"
  have fin: "finite_double_box ?U" using assms(3) by (intro union_of_attached_finite) simp
  have len: "length ?U = dimensions s" using assms(3) by (intro length_union_of_attached) simp
  from EPS_bounds obtain e where e: "EPS = Fin e" by blast
  from maxSideLength_loop_finite[OF _ fin assms(4), of "dimensions s" 0 e] len
  obtain r where r: "maxSideLength_loop (dimensions s) 0 ?U EPS = Fin r"
    unfolding e by auto
  have "enlarge_loop (dimensions s) 0 (Fin 0) (Fin r) ?U = ?U"
  proof (rule enlarge_loop_fixed, intro allI impI)
    fix j assume "j < length ?U"
    from finite_double_box_nth[OF fin this]
    show "fsub (fst (?U ! j)) (fmul (Fin 0) (Fin r)) = fst (?U ! j)
          \<and> fadd (snd (?U ! j)) (fmul (Fin 0) (Fin r)) = snd (?U ! j)"
      by (simp only: fmul_zero fsub_zero fadd_zero simp_thms)
  qed
  then show ?thesis
    unfolding prepareBoundingBox_def Let_def assms(1) resize_fresh
      merge_attached[OF assms(3)] assms(2) r
    by simp
qed

lemma sentinel_side: "fsub (Fin DBL_LOWEST) (Fin DBL_MAX) = MinusInfinity"
  using round_to_double_overflow_neg by (simp add: fsub_def)

lemma prepareBoundingBox_sentinel_stays:
  assumes "bb s = replicate (dimensions s) (Fin DBL_MAX, Fin DBL_LOWEST)"
    and "fromMapping s = None" and "toMapping s = None"
    and "safetyFactor s = Fin sf" and "0 \<le> sf" and "sf \<le> 2 ^ 988"
  shows "prepareBoundingBox s = Inr s"
proof -
  let ?S = "replicate (dimensions s) (Fin DBL_MAX, Fin DBL_LOWEST)"
  from EPS_bounds obtain e where e: "EPS = Fin e" "0 \<le> e" "e \<le> 2 powi (- 19)" by blast
  have m: "maxSideLength_loop (dimensions s) 0 ?S EPS = EPS"
    by (rule maxSideLength_loop_floor) (simp add: sentinel_side e(1))
  have r969: "representable (2 ^ 969)"
  proof -
    have "on_grid (2 powi 969)" by (rule on_grid_pow2) simp
    moreover have "\<bar>(2::real) ^ 969\<bar> \<le> DBL_MAX" by (simp add: DBL_MAX_def)
    ultimately show ?thesis by (simp add: representable_def)
  qed
  have "sf * e \<le> 2 ^ 988 * 2 powi (- 19)"
    using assms(5,6) e(2,3) by (intro mult_mono) simp_all
  also have "\<dots> = (2::real) ^ 969"
    by (simp add: power_int_minus field_simps)
  finally have up: "sf * e \<le> 2 ^ 969" .
  have "0 \<le> sf * e" using assms(5) e(2) by simp
  from round_to_double_bounded[OF this up _ r969]
  obtain d where d: "fmul (Fin sf) EPS = Fin d" "0 \<le> d" "d \<le> 2 ^ 969"
    by (auto simp: e(1))
  have lt: "(2::real) ^ 969 < 2 ^ 970" by simp
  have hi: "fadd (Fin DBL_LOWEST) (Fin d) = Fin DBL_LOWEST"
  proof -
    have "round_real (DBL_LOWEST + d) = - DBL_MAX"
      using d(2,3) lt by (intro round_real_near_lowest) (simp_all add: DBL_LOWEST_def)
    then show ?thesis using DBL_MAX_pos by (simp add: round_to_double_def DBL_LOWEST_def)
  qed
  have lo: "fsub (Fin DBL_MAX) (Fin d) = Fin DBL_MAX"
  proof -
    have "round_real (DBL_MAX + - d) = DBL_MAX"
      using d(2,3) lt by (intro round_real_near_max) simp_all
    then show ?thesis using DBL_MAX_pos by (simp add: round_to_double_def fsub_def)
  qed
  have "enlarge_loop (dimensions s) 0 (Fin sf) EPS ?S = ?S"
  proof (rule enlarge_loop_fixed, intro allI impI)
    fix j assume "j < length ?S"
    then have "?S ! j = (Fin DBL_MAX, Fin DBL_LOWEST)" by simp
    then show "fsub (fst (?S ! j)) (fmul (Fin sf) EPS) = fst (?S ! j)
               \<and> fadd (snd (?S ! j)) (fmul (Fin sf) EPS) = snd (?S ! j)"
      by (simp only: d(1) hi lo fst_conv snd_conv simp_thms)
  qed
  then have en: "enlarge_loop (dimensions s) 0 (Fin sf) EPS (bb s) = bb s"
    by (simp only: assms(1))
  have m': "maxSideLength_loop (dimensions s) 0 (bb s) EPS = EPS"
    using m by (simp only: assms(1))
  have rs: "resize (dimensions s) (Fin DBL_MAX, Fin DBL_LOWEST) (bb s) = bb s"
    using resize_fresh[of "dimensions s" "(Fin DBL_MAX, Fin DBL_LOWEST)"]
    by (simp only: assms(1))
  show ?thesis
    using assms(5)
    by (simp add: prepareBoundingBox_def Let_def rs assms(2,3,4) m' en less_eq_double_def)
qed

text \<open>
  Claim C2, as stated, fails. With a safety factor of zero the dilation
  \<^verbatim>\<open>_safetyFactor * maxSideLength\<close> is zero whatever the side lengths: the floor
  \<^verbatim>\<open>1e-6\<close> bounds \<open>maxSideLength\<close>, not the dilation. In one dimension, with the
  point box \<open>[[0, 0]]\<close> attached, the result is \<open>[[0, 0]]\<close> and not the box dilated
  by \<^verbatim>\<open>1e-6\<close> that the claim expects.
\<close>

theorem prepareBoundingBox_zero_factor_point_box:
  "prepareBoundingBox (newReceivedBoundingBox 1 (Fin 0) 0 (Some [(Fin 0, Fin 0)]) None)
     = Inr ((newReceivedBoundingBox 1 (Fin 0) 0 (Some [(Fin 0, Fin 0)]) None)
              \<lparr>bb := [(Fin 0, Fin 0)]\<rparr>)
   \<and> union_dilated_if_degenerate (newReceivedBoundingBox 1 (Fin 0) 0 (Some [(Fin 0, Fin 0)]) None)
     = [(fsub (Fin 0) EPS, fadd (Fin 0) EPS)]
   \<and> [(Fin 0, Fin 0)]
     \<noteq> union_dilated_if_degenerate (newReceivedBoundingBox 1 (Fin 0) 0 (Some [(Fin 0, Fin 0)]) None)"
proof -
  let ?s = "newReceivedBoundingBox 1 (Fin 0) 0 (Some [(Fin 0, Fin 0)]) None"
  have u: "union_of_attached ?s = [(Fin 0, Fin 0)]"
    using DBL_MAX_pos
    by (simp add: newReceivedBoundingBox_def union_of_attached_def attached_def unite_def
          min_def max_def less_eq_double_def DBL_LOWEST_def)
  have "sides_within_max (union_of_attached ?s)"
    unfolding u by (simp add: sides_within_max_def DBL_MAX_def)
  then have "prepareBoundingBox ?s = Inr (?s\<lparr>bb := union_of_attached ?s\<rparr>)"
    by (intro prepareBoundingBox_zero_factor)
       (simp_all add: newReceivedBoundingBox_def attached_def finite_double_box_def)
  then have a: "prepareBoundingBox ?s = Inr (?s\<lparr>bb := [(Fin 0, Fin 0)]\<rparr>)"
    by (simp only: u)
  have b: "union_dilated_if_degenerate ?s = [(fsub (Fin 0) EPS, fadd (Fin 0) EPS)]"
    unfolding union_dilated_if_degenerate_def u
    by (simp add: dilate_def fsub_def round_to_double_representable)
  have c: "[(Fin 0, Fin 0)] \<noteq> union_dilated_if_degenerate ?s"
    unfolding b using fadd_zero_EPS by simp
  show ?thesis by (intro conjI a b c)
qed

text \<open>
  Claim C2, amended. On an instance as the constructor leaves it, with a safety factor of
  zero and attached boxes of finite doubles with at least \<open>dimensions\<close> entries, such
  that no side of the merged box is longer than max, \<^verbatim>\<open>prepareBoundingBox\<close> returns,
  and \<^verbatim>\<open>_bb\<close> is the componentwise union (min of lower bounds, max of upper bounds)
  of the sentinel box (max, lowest) and the attached boxes, with no dilation at all.
  Without the bound on the sides a side length overflows to \<open>+\<infinity>\<close>, the dilation
  \<open>0.0 * \<infinity>\<close> is not a number, and neither are the bounds of the result.
\<close>

theorem prepareBoundingBox_zero_factor_union:
  assumes "bb s = replicate (dimensions s) (Fin DBL_MAX, Fin DBL_LOWEST)"
    and "safetyFactor s = Fin 0"
    and "\<forall>b \<in> set (attached s). dimensions s \<le> length b \<and> finite_double_box b"
    and "sides_within_max (union_of_attached s)"
  shows "prepareBoundingBox s = Inr (s\<lparr>bb := union_of_attached s\<rparr>)"
  using assms by (rule prepareBoundingBox_zero_factor)

theorem prepareBoundingBox_zero_factor_union_witness:
  "prepareBoundingBox (newReceivedBoundingBox 2 (Fin 0) 0
       (Some [(Fin 0, Fin 1), (Fin 0, Fin 0)]) (Some [(Fin 2, Fin 3), (Fin 0, Fin 0)]))
     = Inr ((newReceivedBoundingBox 2 (Fin 0) 0
               (Some [(Fin 0, Fin 1), (Fin 0, Fin 0)]) (Some [(Fin 2, Fin 3), (Fin 0, Fin 0)]))
              \<lparr>bb := [(Fin 0, Fin 3), (Fin 0, Fin 0)]\<rparr>)"
proof -
  let ?s = "newReceivedBoundingBox 2 (Fin 0) 0
       (Some [(Fin 0, Fin 1), (Fin 0, Fin 0)]) (Some [(Fin 2, Fin 3), (Fin 0, Fin 0)])"
  have u: "union_of_attached ?s = [(Fin 0, Fin 3), (Fin 0, Fin 0)]"
    using DBL_MAX_pos
    by (simp add: newReceivedBoundingBox_def union_of_attached_def attached_def unite_def
          min_def max_def less_eq_double_def DBL_LOWEST_def eval_nat_numeral)
  have "sides_within_max (union_of_attached ?s)"
    unfolding u by (simp add: sides_within_max_def DBL_MAX_def)
  moreover have "bb ?s = replicate (dimensions ?s) (Fin DBL_MAX, Fin DBL_LOWEST)"
    and "safetyFactor ?s = Fin 0"
    and "\<forall>b \<in> set (attached ?s). dimensions ?s \<le> length b \<and> finite_double_box b"
    by (simp_all add: newReceivedBoundingBox_def attached_def finite_double_box_def)
  ultimately show ?thesis
    using prepareBoundingBox_zero_factor_union[of ?s] by (simp only: u)
qed

text \<open>
  The bound on the sides is needed. With the box \<open>[[lowest, max]]\<close> attached in one
  dimension the side length \<open>max - lowest\<close> overflows to \<open>+\<infinity>\<close>, the dilation
  \<open>0.0 * \<infinity>\<close> is not a number, and both bounds of the result are not a number.
\<close>

lemma prepareBoundingBox_zero_factor_overflow:
  "prepareBoundingBox
     (newReceivedBoundingBox 1 (Fin 0) 0 (Some [(Fin DBL_LOWEST, Fin DBL_MAX)]) None)
   = Inr ((newReceivedBoundingBox 1 (Fin 0) 0 (Some [(Fin DBL_LOWEST, Fin DBL_MAX)]) None)
            \<lparr>bb := [(NaN, NaN)]\<rparr>)"
proof -
  from EPS_bounds obtain e where e: "EPS = Fin e" by blast
  have m: "merge_loop (Suc 0) 0 [(Fin DBL_LOWEST, Fin DBL_MAX)] [(Fin DBL_MAX, Fin DBL_LOWEST)]
             = Inr [(Fin DBL_LOWEST, Fin DBL_MAX)]"
    using DBL_MAX_pos by (simp add: merge_loop.simps DBL_LOWEST_def)
  have s: "maxSideLength_loop (Suc 0) 0 [(Fin DBL_LOWEST, Fin DBL_MAX)] EPS = PlusInfinity"
  proof -
    have "fsub (Fin DBL_MAX) (Fin DBL_LOWEST) = PlusInfinity"
      using round_to_double_overflow_pos by (simp add: fsub_def DBL_LOWEST_def)
    then show ?thesis
      by (simp add: maxSideLength_loop.simps std_max_def e del: fadd.simps)
  qed
  have d: "enlarge_loop (Suc 0) 0 (Fin 0) PlusInfinity [(Fin DBL_LOWEST, Fin DBL_MAX)]
             = [(NaN, NaN)]"
    by (simp add: enlarge_loop.simps fsub_def)
  show ?thesis
    by (simp add: prepareBoundingBox_def newReceivedBoundingBox_def resize_def Let_def m s d
          less_eq_double_def)
qed

text \<open>
  Claim C3, as stated, fails. With no mapping attached the box is still the constructor's
  sentinel (max, lowest) when it is dilated. Its side length \<open>lowest - max\<close> overflows
  to \<open>-\<infinity>\<close>, so \<open>maxSideLength\<close> is the floor \<^verbatim>\<open>1e-6\<close>, and moving max or lowest by
  \<open>safetyFactor * 1e-6\<close> rounds back to max or lowest. For two dimensions and a safety
  factor of 1 the result is the sentinel (max, lowest) in both dimensions, and not
  \<^verbatim>\<open>[-1e-6, 1e-6]\<close>.
\<close>

theorem prepareBoundingBox_no_mapping_E4:
  "prepareBoundingBox (newReceivedBoundingBox 2 (Fin 1) 0 None None)
     = Inr ((newReceivedBoundingBox 2 (Fin 1) 0 None None)
              \<lparr>bb := [(Fin DBL_MAX, Fin DBL_LOWEST), (Fin DBL_MAX, Fin DBL_LOWEST)]\<rparr>)
   \<and> [(Fin DBL_MAX, Fin DBL_LOWEST), (Fin DBL_MAX, Fin DBL_LOWEST)]
     \<noteq> [(fneg EPS, EPS), (fneg EPS, EPS)]"
proof -
  have "prepareBoundingBox (newReceivedBoundingBox 2 (Fin 1) 0 None None)
          = Inr (newReceivedBoundingBox 2 (Fin 1) 0 None None)"
    by (rule prepareBoundingBox_sentinel_stays[where sf = 1])
       (simp_all add: newReceivedBoundingBox_def)
  moreover have "bb (newReceivedBoundingBox 2 (Fin 1) 0 None None)
          = [(Fin DBL_MAX, Fin DBL_LOWEST), (Fin DBL_MAX, Fin DBL_LOWEST)]"
    by (simp add: newReceivedBoundingBox_def eval_nat_numeral)
  ultimately show ?thesis using fneg_EPS by (simp add: newReceivedBoundingBox_def)
qed

text \<open>
  Claim C3, amended. On an instance as the constructor leaves it, with no mapping
  attached and a safety factor \<open>sf\<close> with \<open>0 \<le> sf \<le> 2\<^sup>9\<^sup>8\<^sup>8\<close>, \<^verbatim>\<open>prepareBoundingBox\<close>
  returns and leaves the sentinel as it is: \<^verbatim>\<open>_bb[d]\<close> is (max, lowest) in every
  dimension. The dilation \<open>sf * 1e-6\<close> is at most \<open>2\<^sup>9\<^sup>6\<^sup>9\<close>, less than half the
  distance \<open>2\<^sup>9\<^sup>7\<^sup>1\<close> from max to the next double below it.
\<close>

theorem prepareBoundingBox_no_mapping:
  assumes "bb s = replicate (dimensions s) (Fin DBL_MAX, Fin DBL_LOWEST)"
    and "fromMapping s = None" and "toMapping s = None"
    and "safetyFactor s = Fin sf" and "0 \<le> sf" and "sf \<le> 2 ^ 988"
  shows "prepareBoundingBox s
           = Inr (s\<lparr>bb := replicate (dimensions s) (Fin DBL_MAX, Fin DBL_LOWEST)\<rparr>)"
  using prepareBoundingBox_sentinel_stays[OF assms] assms(1) by simp

theorem prepareBoundingBox_no_mapping_witness:
  "prepareBoundingBox (newReceivedBoundingBox 3 (Fin (1 / 2)) 0 None None)
     = Inr ((newReceivedBoundingBox 3 (Fin (1 / 2)) 0 None None)
              \<lparr>bb := replicate 3 (Fin DBL_MAX, Fin DBL_LOWEST)\<rparr>)"
  using prepareBoundingBox_no_mapping
          [of "newReceivedBoundingBox 3 (Fin (1 / 2)) 0 None None" "1 / 2"]
  by (simp add: newReceivedBoundingBox_def)

section \<open>Properties of the ordered maps\<close>

text \<open>
  \<open>map_assign\<close> is the update of the map that the list represents, it keeps the keys
  ascending, and ascending lists that represent the same map are equal.
\<close>

lemma map_of_map_assign: "map_of (map_assign k v m) = (map_of m)(k \<mapsto> v)"
  by (induction m) (auto simp: fun_upd_twist)

lemma keys_map_assign: "fst ` set (map_assign k v m) = insert k (fst ` set m)"
proof -
  have "fst ` set (map_assign k v m) = dom (map_of (map_assign k v m))"
    by (simp add: dom_map_of_conv_image_fst)
  also have "\<dots> = insert k (dom (map_of m))"
    by (simp add: map_of_map_assign)
  also have "\<dots> = insert k (fst ` set m)"
    by (simp add: dom_map_of_conv_image_fst)
  finally show ?thesis .
qed

lemma sorted_map_assign:
  "sorted_wrt (<) (map fst m) \<Longrightarrow> sorted_wrt (<) (map fst (map_assign k v m))"
proof (induction m)
  case Nil
  then show ?case by simp
next
  case (Cons e m)
  obtain k' v' where e: "e = (k', v')" by (cases e)
  from Cons.prems e have tl: "sorted_wrt (<) (map fst m)" and hd: "\<forall>x \<in> fst ` set m. k' < x"
    by auto
  show ?case
  proof (cases "k < k'")
    case True
    with hd have "\<forall>x \<in> fst ` set m. k < x" by force
    with True tl hd show ?thesis by (simp add: e)
  next
    case False
    show ?thesis
    proof (cases "k = k'")
      case True
      with tl hd show ?thesis by (simp add: e)
    next
      case ne: False
      with False have gt: "k' < k" by simp
      have "\<forall>x \<in> fst ` set (map_assign k v m). k' < x"
        unfolding keys_map_assign using hd gt by simp
      with Cons.IH[OF tl] False ne show ?thesis by (simp add: e)
    qed
  qed
qed

lemma map_assign_append:
  "\<forall>x \<in> fst ` set m. x < k \<Longrightarrow> map_assign k v m = m @ [(k, v)]"
  by (induction m) auto

lemma sorted_alist_eqI:
  fixes xs ys :: "(int \<times> 'v) list"
  assumes "sorted_wrt (<) (map fst xs)" and "sorted_wrt (<) (map fst ys)"
    and "map_of xs = map_of ys"
  shows "xs = ys"
proof -
  have dx: "distinct (map fst xs)" and sx: "sorted (map fst xs)"
    using assms(1) by (simp_all add: strict_sorted_iff)
  have dy: "distinct (map fst ys)" and sy: "sorted (map fst ys)"
    using assms(2) by (simp_all add: strict_sorted_iff)
  have set_eq: "set xs = set ys"
  proof (rule set_eqI)
    fix e :: "int \<times> 'v"
    obtain k v where e: "e = (k, v)" by (cases e)
    have "(k, v) \<in> set xs \<longleftrightarrow> map_of xs k = Some v" using dx by simp
    also have "\<dots> \<longleftrightarrow> map_of ys k = Some v" using assms(3) by simp
    also have "\<dots> \<longleftrightarrow> (k, v) \<in> set ys" using dy by simp
    finally show "e \<in> set xs \<longleftrightarrow> e \<in> set ys" using e by simp
  qed
  have "inj_on fst (set xs \<union> set ys)"
    using dx set_eq by (simp add: distinct_map)
  then show ?thesis
    using sx dx sy dy set_eq by (rule map_sorted_distinct_set_unique)
qed

text \<open>
  Receiving a map whose keys cover those that the receiver already holds replaces the
  receiver's map by the one received; the loops that fill a map with placeholders
  append one entry per rank.
\<close>

lemma fold_assign_sorted:
  "sorted_wrt (<) (map fst bbm) \<Longrightarrow>
   sorted_wrt (<) (map fst (fold (\<lambda>(k, b) m. map_assign k b m) received bbm))"
proof (induction received arbitrary: bbm)
  case Nil
  then show ?case by simp
next
  case (Cons e received)
  obtain k v where e: "e = (k, v)" by (cases e)
  from Cons.prems have "sorted_wrt (<) (map fst (map_assign k v bbm))"
    by (rule sorted_map_assign)
  from Cons.IH[OF this] show ?case by (simp add: e)
qed

lemma fold_assign_map_of:
  "distinct (map fst received) \<Longrightarrow>
   map_of (fold (\<lambda>(k, b) m. map_assign k b m) received bbm) = map_of bbm ++ map_of received"
proof (induction received arbitrary: bbm)
  case Nil
  then show ?case by simp
next
  case (Cons e received)
  obtain k v where e: "e = (k, v)" by (cases e)
  from Cons.prems e have d: "distinct (map fst received)" and nk: "k \<notin> dom (map_of received)"
    by (auto simp: dom_map_of_conv_image_fst)
  have "map_of (fold (\<lambda>(k, b) m. map_assign k b m) (e # received) bbm)
      = map_of (map_assign k v bbm) ++ map_of received"
    using Cons.IH[OF d, of "map_assign k v bbm"] by (simp add: e)
  also have "\<dots> = (map_of bbm)(k \<mapsto> v) ++ map_of received"
    by (simp only: map_of_map_assign)
  also have "\<dots> = (map_of bbm ++ map_of received)(k \<mapsto> v)"
    using nk by (rule map_add_upd_left)
  also have "\<dots> = map_of bbm ++ map_of (e # received)"
    by (simp add: e)
  finally show ?case .
qed

lemma store_entries_same_keys:
  assumes "sorted_wrt (<) (map fst received)" and "sorted_wrt (<) (map fst bbm)"
    and "fst ` set bbm \<subseteq> fst ` set received"
  shows "store_entries received bbm = received"
proof (rule sorted_alist_eqI)
  show "sorted_wrt (<) (map fst (store_entries received bbm))"
    unfolding store_entries_def using assms(2) by (rule fold_assign_sorted)
  show "sorted_wrt (<) (map fst received)" by fact
  have d: "distinct (map fst received)" using assms(1) strict_sorted_iff by blast
  have "map_of bbm ++ map_of received = map_of received"
  proof
    fix k
    show "(map_of bbm ++ map_of received) k = map_of received k"
    proof (cases "map_of received k")
      case None
      then have "k \<notin> fst ` set received" by (simp add: map_of_eq_None_iff)
      with assms(3) have "k \<notin> fst ` set bbm" by blast
      then have "map_of bbm k = None" by (simp add: map_of_eq_None_iff)
      with None show ?thesis by (simp add: map_add_def)
    next
      case (Some v)
      then show ?thesis by (simp add: map_add_def)
    qed
  qed
  then show "map_of (store_entries received bbm) = map_of received"
    unfolding store_entries_def by (simp add: fold_assign_map_of[OF d])
qed

lemma init_remoteBBM_append:
  "\<forall>x \<in> fst ` set bbm. x < r \<Longrightarrow>
   init_remoteBBM r n ib bbm = bbm @ map (\<lambda>k. (k, ib)) [r..n - 1]"
proof (induction r n ib bbm rule: init_remoteBBM.induct)
  case (1 r n ib bbm)
  show ?case
  proof (cases "r < n")
    case False
    then show ?thesis by (subst init_remoteBBM.simps) simp
  next
    case True
    have a: "map_assign r ib bbm = bbm @ [(r, ib)]"
      using 1(2) by (rule map_assign_append)
    have "\<forall>x \<in> fst ` set (map_assign r ib bbm). x < r + 1"
      unfolding keys_map_assign using 1(2) by auto
    from 1(1)[OF True this]
    have "init_remoteBBM (r + 1) n ib (map_assign r ib bbm)
            = map_assign r ib bbm @ map (\<lambda>k. (k, ib)) [r + 1..n - 1]" .
    moreover have "[r..n - 1] = r # [r + 1..n - 1]"
      using True by (simp add: upto_rec1)
    ultimately show ?thesis
      using True a by (subst init_remoteBBM.simps) simp
  qed
qed

lemma init_remoteBBM_empty:
  "init_remoteBBM 0 n ib [] = map (\<lambda>k. (k, ib)) [0..n - 1]"
  using init_remoteBBM_append[of "[]" 0 n ib] by simp

lemma init_feedbackMap_append:
  "\<forall>x \<in> fst ` set fm. x < r \<Longrightarrow>
   init_feedbackMap r n fm = fm @ map (\<lambda>k. (k, [- 1])) [r..n - 1]"
proof (induction r n fm rule: init_feedbackMap.induct)
  case (1 r n fm)
  show ?case
  proof (cases "r < n")
    case False
    then show ?thesis by (subst init_feedbackMap.simps) simp
  next
    case True
    have "r \<notin> fst ` set fm" using 1(2) by auto
    then have "map_of fm r = None" by (simp add: map_of_eq_None_iff)
    then have at: "map_at fm r = []" by (simp add: map_at_def)
    have a: "map_assign r (map_at fm r @ [- 1]) fm = fm @ [(r, [- 1])]"
      using 1(2) at by (simp add: map_assign_append)
    have "\<forall>x \<in> fst ` set (map_assign r (map_at fm r @ [- 1]) fm). x < r + 1"
      unfolding keys_map_assign using 1(2) by auto
    from 1(1)[OF True this]
    have "init_feedbackMap (r + 1) n (map_assign r (map_at fm r @ [- 1]) fm)
            = map_assign r (map_at fm r @ [- 1]) fm @ map (\<lambda>k. (k, [- 1])) [r + 1..n - 1]" .
    moreover have "[r..n - 1] = r # [r + 1..n - 1]"
      using True by (simp add: upto_rec1)
    ultimately show ?thesis
      using True a by (subst init_feedbackMap.simps) simp
  qed
qed

section \<open>Properties of phase 2\<close>

text \<open>
  The feedback loop of a rank computes the overlap set of its box, in the order of the
  map, and \<^verbatim>\<open>prepareBoundingBox\<close> changes no field but \<open>bb\<close>.
\<close>

lemma feedback_loop_char:
  assumes "dims \<le> length b" and "list_all (\<lambda>e. dims \<le> length (snd e)) bbm"
  shows "feedback_loop dims b bbm fb =
           Inr (fb @ map fst (filter (\<lambda>e. overlapping dims b (snd e) = Inr True) bbm))"
  using assms(2)
proof (induction bbm arbitrary: fb)
  case Nil
  then show ?case by simp
next
  case (Cons e bbm)
  from Cons.prems have le: "dims \<le> length (snd e)" and rest: "list_all (\<lambda>e. dims \<le> length (snd e)) bbm"
    by simp_all
  from overlapping_returns[OF assms(1) le] obtain ov where ov: "overlapping dims b (snd e) = Inr ov"
    by blast
  show ?case
    using Cons.IH[OF rest] ov by (cases ov) simp_all
qed

lemma overlap_ranks_sorted:
  assumes "sorted_wrt (<) (map fst bbm)"
  shows "overlap_ranks dims b bbm
           = map fst (filter (\<lambda>e. overlapping dims b (snd e) = Inr True) bbm)"
proof -
  let ?xs = "map fst (filter (\<lambda>e. overlapping dims b (snd e) = Inr True) bbm)"
  have "sorted_wrt (<) ?xs"
    using assms by (induction bbm) auto
  then have "sorted ?xs" "distinct ?xs"
    using strict_sorted_iff by blast+
  then have "sorted_list_of_set (set ?xs) = ?xs"
    by (rule sorted_list_of_set.idem_if_sorted_distinct)
  moreover have "set ?xs = fst ` {e \<in> set bbm. overlapping dims b (snd e) = Inr True}"
    by auto
  ultimately show ?thesis by (simp add: overlap_ranks_def)
qed

lemma prepareBoundingBox_shape:
  assumes "prepareBoundingBox s = Inr s'"
  shows "s' = s\<lparr>bb := bb s'\<rparr>"
proof -
  from assms obtain b where "s' = s\<lparr>bb := b\<rparr>"
    unfolding prepareBoundingBox_def Let_def
    by (auto split: sum.splits if_splits)
  then show ?thesis by simp
qed

lemma prepareBoundingBox_ready:
  assumes "Fin 0 \<le> safetyFactor s" and "list_all (\<lambda>b. dimensions s \<le> length b) (attached s)"
  shows "\<exists>b. prepareBoundingBox s = Inr (s\<lparr>bb := b\<rparr>) \<and> length b = dimensions s"
proof -
  let ?b0 = "resize (dimensions s) (Fin DBL_MAX, Fin DBL_LOWEST) (bb s)"
  have "\<exists>b1. (case fromMapping s of
              None \<Rightarrow> Inr ?b0
            | Some other_bb \<Rightarrow> merge_loop (dimensions s) 0 other_bb ?b0) = Inr b1
          \<and> length b1 = dimensions s"
    using assms(2) merge_loop_returns[of "dimensions s" _ ?b0]
    by (cases "fromMapping s") (simp_all add: attached_def length_resize)
  then obtain b1 where b1: "(case fromMapping s of
              None \<Rightarrow> Inr ?b0
            | Some other_bb \<Rightarrow> merge_loop (dimensions s) 0 other_bb ?b0) = Inr b1"
      "length b1 = dimensions s" by blast
  have "\<exists>b2. (case toMapping s of
              None \<Rightarrow> Inr b1
            | Some other_bb \<Rightarrow> merge_loop (dimensions s) 0 other_bb b1) = Inr b2
          \<and> length b2 = dimensions s"
    using assms(2) merge_loop_returns[of "dimensions s" _ b1] b1(2)
    by (cases "toMapping s") (simp_all add: attached_def)
  then obtain b2 where b2: "(case toMapping s of
              None \<Rightarrow> Inr b1
            | Some other_bb \<Rightarrow> merge_loop (dimensions s) 0 other_bb b1) = Inr b2"
      "length b2 = dimensions s" by blast
  have "prepareBoundingBox s
          = Inr (s\<lparr>bb := enlarge_loop (dimensions s) 0 (safetyFactor s)
                          (maxSideLength_loop (dimensions s) 0 b2 EPS) b2\<rparr>)"
    using assms(1) by (simp add: prepareBoundingBox_def Let_def b1(1) b2(1))
  moreover have "length (enlarge_loop (dimensions s) 0 (safetyFactor s)
                          (maxSideLength_loop (dimensions s) 0 b2 EPS) b2) = dimensions s"
    using b2(2) by (simp add: length_enlarge_loop)
  ultimately show ?thesis by blast
qed

text \<open>
  One slave, the slaves together, and the master, given what the slaves have sent.
\<close>

lemma sorted_keys_upto:
  "map fst (m :: (int \<times> 'v) list) = [a..b] \<Longrightarrow> sorted_wrt (<) (map fst m)"
  by (simp add: strict_sorted_iff)

lemma overlap_ranks_subset:
  "set (overlap_ranks dims b bbm) \<subseteq> fst ` set bbm"
  by (auto simp: overlap_ranks_def)

text \<open>
  Phase 1 on an instance with an empty map: when the other master sends the size \<open>n\<close>
  and a map with the keys \<open>0, \<dots>, n - 1\<close>, the instance holds exactly that map
  afterwards.
\<close>

lemma communicateBoundingBox_fills_map:
  assumes "\<not> slaveMode ms" and "remoteBBM s = []" and "map fst received = [0..n - 1]"
  shows "communicateBoundingBox ms
           (s, c\<lparr>m2n_in := IntMsg n # BoundingBoxMapMsg received # q\<rparr>)
           = Inr (s\<lparr>remoteParComSize := n, remoteBBM := received\<rparr>, c\<lparr>m2n_in := q\<rparr>)"
proof -
  let ?P = "init_remoteBBM 0 n (initialBB (dimensions s)) []"
  have sM: "sorted_wrt (<) (map fst received)" using assms(3) by (rule sorted_keys_upto)
  have P: "?P = map (\<lambda>k. (k, initialBB (dimensions s))) [0..n - 1]"
    by (rule init_remoteBBM_empty)
  have kP: "map fst ?P = [0..n - 1]" unfolding P by (simp add: comp_def)
  have sP: "sorted_wrt (<) (map fst ?P)" using kP by (rule sorted_keys_upto)
  have "fst ` set ?P = fst ` set received"
    using kP assms(3) by (metis list.set_map)
  then have "store_entries received ?P = received"
    using sM sP by (intro store_entries_same_keys) simp_all
  with assms(1,2) show ?thesis
    by (simp add: communicateBoundingBox_def m2n_receive_int_def receive_int_def
          receiveBoundingBoxMap_def receive_bbm_def Let_def)
qed

lemma slave_computeBoundingBox:
  assumes prep: "prepareBoundingBox s0 = Inr (s0\<lparr>bb := b\<rparr>)" and len: "length b = dimensions s0"
    and fresh: "remoteBBM s0 = []"
    and keys: "map fst M = [0..n - 1]"
    and lens: "list_all (\<lambda>e. dimensions s0 \<le> length (snd e)) M"
  shows "\<exists>c'. computeBoundingBox (slaveRole N r)
                 (s0, idle\<lparr>com_in := (\<lambda>src. if src = 0 then [IntMsg n, BoundingBoxMapMsg M] else [])\<rparr>)
               = Inr (s0\<lparr>bb := b, remoteParComSize := n, remoteBBM := M\<rparr>, c')
             \<and> sent_to 0 (com_out c') = feedback_messages (overlap_ranks (dimensions s0) b M)"
proof -
  let ?P = "init_remoteBBM 0 n (initialBB (dimensions s0)) []"
  have sM: "sorted_wrt (<) (map fst M)" using keys by (rule sorted_keys_upto)
  have P: "?P = map (\<lambda>k. (k, initialBB (dimensions s0))) [0..n - 1]"
    by (rule init_remoteBBM_empty)
  have kP: "map fst ?P = [0..n - 1]" unfolding P by (simp add: comp_def)
  have sP: "sorted_wrt (<) (map fst ?P)" using kP by (rule sorted_keys_upto)
  have "fst ` set ?P = fst ` set M"
    using kP keys by (metis list.set_map)
  then have store: "store_entries M ?P = M"
    using sM sP by (intro store_entries_same_keys) simp_all
  have fb: "feedback_loop (dimensions s0) b M [] = Inr (overlap_ranks (dimensions s0) b M)"
    using len lens by (simp add: feedback_loop_char overlap_ranks_sorted[OF sM])
  show ?thesis
    using prep fresh store fb
    by (simp add: computeBoundingBox_def slaveRole_def com_receive_int_def receive_int_def
          broadcastReceiveBoundingBoxMap_def receive_bbm_def com_send_def idle_def Let_def
          feedback_messages_def)
qed

lemma run_slaves_char:
  assumes keys: "map fst M = [0..n - 1]"
    and fresh: "list_all (\<lambda>s. remoteBBM s = []) slaves"
    and ready: "list_all (rank_ready M) slaves"
  shows "\<exists>ps. run_slaves N r [IntMsg n, BoundingBoxMapMsg M] slaves = Inr ps
           \<and> length ps = length slaves
           \<and> (\<forall>i<length slaves. \<exists>b.
                 prepareBoundingBox (slaves ! i) = Inr ((slaves ! i)\<lparr>bb := b\<rparr>)
               \<and> fst (ps ! i) = (slaves ! i)\<lparr>bb := b, remoteParComSize := n, remoteBBM := M\<rparr>
               \<and> sent_to 0 (com_out (snd (ps ! i)))
                   = feedback_messages (overlap_ranks (dimensions (slaves ! i)) b M))"
  using fresh ready
proof (induction slaves arbitrary: r)
  case Nil
  then show ?case by simp
next
  case (Cons s slaves)
  from Cons.prems have fs: "remoteBBM s = []" and rs: "rank_ready M s"
    and fr: "list_all (\<lambda>s. remoteBBM s = []) slaves" and rr: "list_all (rank_ready M) slaves"
    by simp_all
  from rs obtain b where b: "prepareBoundingBox s = Inr (s\<lparr>bb := b\<rparr>)" "length b = dimensions s"
    using prepareBoundingBox_ready[of s] by (auto simp: rank_ready_def)
  from rs have lens: "list_all (\<lambda>e. dimensions s \<le> length (snd e)) M"
    by (simp add: rank_ready_def)
  from slave_computeBoundingBox[OF b fs keys lens, of N r]
  obtain c' where c': "computeBoundingBox (slaveRole N r)
                 (s, idle\<lparr>com_in := (\<lambda>src. if src = 0 then [IntMsg n, BoundingBoxMapMsg M] else [])\<rparr>)
               = Inr (s\<lparr>bb := b, remoteParComSize := n, remoteBBM := M\<rparr>, c')"
             "sent_to 0 (com_out c') = feedback_messages (overlap_ranks (dimensions s) b M)"
    by blast
  from Cons.IH[OF fr rr, of "r + 1"]
  obtain ps where ps: "run_slaves N (r + 1) [IntMsg n, BoundingBoxMapMsg M] slaves = Inr ps"
     "length ps = length slaves"
     "\<forall>i<length slaves. \<exists>b.
                 prepareBoundingBox (slaves ! i) = Inr ((slaves ! i)\<lparr>bb := b\<rparr>)
               \<and> fst (ps ! i) = (slaves ! i)\<lparr>bb := b, remoteParComSize := n, remoteBBM := M\<rparr>
               \<and> sent_to 0 (com_out (snd (ps ! i)))
                   = feedback_messages (overlap_ranks (dimensions (slaves ! i)) b M)"
    by blast
  let ?p = "(s\<lparr>bb := b, remoteParComSize := n, remoteBBM := M\<rparr>, c')"
  have run: "run_slaves N r [IntMsg n, BoundingBoxMapMsg M] (s # slaves) = Inr (?p # ps)"
    using c'(1) ps(1) by simp
  have "\<forall>i<length (s # slaves). \<exists>b.
                 prepareBoundingBox ((s # slaves) ! i) = Inr (((s # slaves) ! i)\<lparr>bb := b\<rparr>)
               \<and> fst ((?p # ps) ! i) = ((s # slaves) ! i)\<lparr>bb := b, remoteParComSize := n, remoteBBM := M\<rparr>
               \<and> sent_to 0 (com_out (snd ((?p # ps) ! i)))
                   = feedback_messages (overlap_ranks (dimensions ((s # slaves) ! i)) b M)"
  proof (intro allI impI)
    fix i assume i: "i < length (s # slaves)"
    show "\<exists>b. prepareBoundingBox ((s # slaves) ! i) = Inr (((s # slaves) ! i)\<lparr>bb := b\<rparr>)
               \<and> fst ((?p # ps) ! i) = ((s # slaves) ! i)\<lparr>bb := b, remoteParComSize := n, remoteBBM := M\<rparr>
               \<and> sent_to 0 (com_out (snd ((?p # ps) ! i)))
                   = feedback_messages (overlap_ranks (dimensions ((s # slaves) ! i)) b M)"
    proof (cases i)
      case 0
      with b(1) c'(2) show ?thesis by auto
    next
      case (Suc j)
      with i have "j < length slaves" by simp
      with ps(3) Suc show ?thesis by simp
    qed
  qed
  with run ps(2) show ?case by simp
qed

lemma receive_feedback_loop_char:
  assumes "\<forall>k. r \<le> k \<and> k < n \<longrightarrow> com_in c k = feedback_messages (fb k)"
  shows "\<exists>fm' c'. receive_feedback_loop r n fm c = Inr (fm', c')
           \<and> m2n_out c' = m2n_out c \<and> com_out c' = com_out c
           \<and> map_of fm' = (\<lambda>k. if r \<le> k \<and> k < n \<and> fb k \<noteq> [] then Some (fb k) else map_of fm k)"
  using assms
proof (induction "nat (n - r)" arbitrary: r fm c)
  case 0
  then have "\<not> r < n" by simp
  then show ?case by (subst receive_feedback_loop.simps) (auto simp: fun_eq_iff)
next
  case (Suc d)
  then have rn: "r < n" by simp
  from Suc.prems rn have in_r: "com_in c r = feedback_messages (fb r)" by simp
  show ?case
  proof (cases "fb r = []")
    case True
    let ?c1 = "c\<lparr>com_in := (com_in c)(r := [])\<rparr>"
    have rcv: "com_receive_int r c = Inr (0, ?c1)"
      using in_r True by (simp add: com_receive_int_def receive_int_def feedback_messages_def)
    have step: "receive_feedback_loop r n fm c = receive_feedback_loop (r + 1) n fm ?c1"
      using rn rcv by (subst receive_feedback_loop.simps) simp
    have d: "d = nat (n - (r + 1))" using Suc.hyps(2) by simp
    have pre: "\<forall>k. r + 1 \<le> k \<and> k < n \<longrightarrow> com_in ?c1 k = feedback_messages (fb k)"
      using Suc.prems by simp
    from Suc.hyps(1)[OF d pre, of fm]
    obtain fm' c' where r: "receive_feedback_loop (r + 1) n fm ?c1 = Inr (fm', c')"
      "m2n_out c' = m2n_out ?c1" "com_out c' = com_out ?c1"
      "map_of fm' = (\<lambda>k. if r + 1 \<le> k \<and> k < n \<and> fb k \<noteq> [] then Some (fb k) else map_of fm k)"
      by blast
    have split: "\<And>k. r \<le> k \<longleftrightarrow> k = r \<or> r + 1 \<le> k" by auto
    have "map_of fm' = (\<lambda>k. if r \<le> k \<and> k < n \<and> fb k \<noteq> [] then Some (fb k) else map_of fm k)"
      unfolding r(4)
    proof (rule ext)
      fix k
      show "(if r + 1 \<le> k \<and> k < n \<and> fb k \<noteq> [] then Some (fb k) else map_of fm k)
          = (if r \<le> k \<and> k < n \<and> fb k \<noteq> [] then Some (fb k) else map_of fm k)"
        using True split[of k] by (cases "k = r") auto
    qed
    with step r(1,2,3) show ?thesis by simp
  next
    case False
    let ?c1 = "c\<lparr>com_in := (com_in c)(r := [IntVecMsg (fb r)])\<rparr>"
    let ?c2 = "?c1\<lparr>com_in := (com_in ?c1)(r := [])\<rparr>"
    have rcv: "com_receive_int r c = Inr (int (length (fb r)), ?c1)"
      using in_r False by (simp add: com_receive_int_def receive_int_def feedback_messages_def)
    have rcv2: "com_receive_vec r ?c1 = Inr (fb r, ?c2)"
      by (simp add: com_receive_vec_def receive_vec_def)
    have step: "receive_feedback_loop r n fm c
                  = receive_feedback_loop (r + 1) n (map_assign r (fb r) fm) ?c2"
      using rn rcv rcv2 False by (subst receive_feedback_loop.simps) simp
    have d: "d = nat (n - (r + 1))" using Suc.hyps(2) by simp
    have pre: "\<forall>k. r + 1 \<le> k \<and> k < n \<longrightarrow> com_in ?c2 k = feedback_messages (fb k)"
      using Suc.prems by simp
    from Suc.hyps(1)[OF d pre, of "map_assign r (fb r) fm"]
    obtain fm' c' where r: "receive_feedback_loop (r + 1) n (map_assign r (fb r) fm) ?c2 = Inr (fm', c')"
      "m2n_out c' = m2n_out ?c2" "com_out c' = com_out ?c2"
      "map_of fm' = (\<lambda>k. if r + 1 \<le> k \<and> k < n \<and> fb k \<noteq> [] then Some (fb k)
                          else map_of (map_assign r (fb r) fm) k)"
      by blast
    have split: "\<And>k. r \<le> k \<longleftrightarrow> k = r \<or> r + 1 \<le> k" by auto
    have "map_of fm' = (\<lambda>k. if r \<le> k \<and> k < n \<and> fb k \<noteq> [] then Some (fb k) else map_of fm k)"
      unfolding r(4)
    proof (rule ext)
      fix k
      show "(if r + 1 \<le> k \<and> k < n \<and> fb k \<noteq> [] then Some (fb k)
             else map_of (map_assign r (fb r) fm) k)
          = (if r \<le> k \<and> k < n \<and> fb k \<noteq> [] then Some (fb k) else map_of fm k)"
        using False rn split[of k] by (cases "k = r") (auto simp: map_of_map_assign)
    qed
    with step r(1,2,3) show ?thesis by simp
  qed
qed

lemma map_of_sentinels:
  "map_of (map (\<lambda>k. (k, [- 1 :: int])) [a..b]) k = (if a \<le> k \<and> k \<le> b then Some [- 1] else None)"
  by (induction a b rule: upto.induct) (subst upto.simps, auto)

lemma feedback_of_plain:
  "map_of fm r = Some fb \<Longrightarrow> fb \<noteq> [- 1] \<Longrightarrow> feedback_of fm r = fb"
  "map_of fm r = Some [- 1] \<Longrightarrow> feedback_of fm r = []"
  "map_of fm r = None \<Longrightarrow> feedback_of fm r = []"
  by (simp_all add: feedback_of_def map_at_def)

lemma overlap_ranks_not_sentinel:
  assumes "map fst M = [0..n - 1]"
  shows "overlap_ranks dims b M \<noteq> [- 1]"
proof
  assume "overlap_ranks dims b M = [- 1]"
  then have "- 1 \<in> set (overlap_ranks dims b M)" by simp
  with overlap_ranks_subset have "- 1 \<in> fst ` set M" by blast
  then have "- 1 \<in> set (map fst M)" by simp
  with assms show False by simp
qed

lemma master_computeBoundingBox:
  assumes prep: "prepareBoundingBox s0 = Inr (s0\<lparr>bb := b\<rparr>)" and len: "length b = dimensions s0"
    and keys: "map fst (remoteBBM s0) = [0..n - 1]"
    and lens: "list_all (\<lambda>e. dimensions s0 \<le> length (snd e)) (remoteBBM s0)"
    and size: "1 < N"
    and msgs: "\<forall>k. 1 \<le> k \<and> k < N \<longrightarrow> inbox k = feedback_messages (fb k)"
    and fbs: "\<forall>k. 1 \<le> k \<and> k < N \<longrightarrow> fb k \<noteq> [- 1]"
  shows "\<exists>c' fm. computeBoundingBox (masterRole N) (s0, idle\<lparr>com_in := inbox\<rparr>)
                   = Inr (s0\<lparr>bb := b\<rparr>, c')
             \<and> m2n_out c' = [IntMsg (int (length fm)), FeedbackMapMsg fm]
             \<and> broadcasts (com_out c')
                 = [IntMsg (remoteParComSize s0), BoundingBoxMapMsg (remoteBBM s0)]
             \<and> feedback_of fm 0 = overlap_ranks (dimensions s0) b (remoteBBM s0)
             \<and> (\<forall>k. 1 \<le> k \<and> k < N \<longrightarrow> feedback_of fm k = fb k)"
proof -
  let ?M = "remoteBBM s0"
  let ?fb0 = "overlap_ranks (dimensions s0) b ?M"
  let ?fm0 = "map (\<lambda>k. (k, [- 1 :: int])) [1..N - 1]"
  let ?fm1 = "if length ?fb0 \<noteq> 0 then map_assign 0 ?fb0 ?fm0 else ?fm0"
  let ?c2 = "broadcastSendBoundingBoxMap ?M (com_broadcast (IntMsg (remoteParComSize s0)) (idle\<lparr>com_in := inbox\<rparr>))"
  have sM: "sorted_wrt (<) (map fst ?M)" using keys by (rule sorted_keys_upto)
  have fm0: "init_feedbackMap 1 N [] = ?fm0"
    using init_feedbackMap_append[of "[]" 1 N] by simp
  have fb0: "feedback_loop (dimensions s0) b ?M [] = Inr ?fb0"
    using len lens by (simp add: feedback_loop_char overlap_ranks_sorted[OF sM])
  have in2: "\<forall>k. 1 \<le> k \<and> k < N \<longrightarrow> com_in ?c2 k = feedback_messages (fb k)"
    using msgs by (simp add: broadcastSendBoundingBoxMap_def com_broadcast_def)
  from receive_feedback_loop_char[OF in2, of ?fm1]
  obtain fm c3 where loop: "receive_feedback_loop 1 N ?fm1 ?c2 = Inr (fm, c3)"
    "m2n_out c3 = m2n_out ?c2" "com_out c3 = com_out ?c2"
    "map_of fm = (\<lambda>k. if 1 \<le> k \<and> k < N \<and> fb k \<noteq> [] then Some (fb k) else map_of ?fm1 k)"
    by blast
  have out2: "m2n_out ?c2 = []"
    by (simp add: broadcastSendBoundingBoxMap_def com_broadcast_def idle_def)
  have fm1_slave: "\<And>k. 1 \<le> k \<Longrightarrow> k < N \<Longrightarrow> map_of ?fm1 k = Some [- 1]"
    by (simp add: map_of_map_assign map_of_sentinels)
  have fm1_master: "map_of ?fm1 0 = (if ?fb0 = [] then None else Some ?fb0)"
    by (simp add: map_of_map_assign map_of_sentinels)
  have "map_of fm 1 \<noteq> None"
    unfolding loop(4) using size fm1_slave[of 1] by simp
  then have ne: "length fm \<noteq> 0" by auto
  let ?c4 = "m2n_send (IntMsg (int (length fm))) c3"
  let ?c5 = "sendFeedbackMap fm ?c4"
  have run: "computeBoundingBox (masterRole N) (s0, idle\<lparr>com_in := inbox\<rparr>) = Inr (s0\<lparr>bb := b\<rparr>, ?c5)"
    using prep size fm0 fb0 loop(1) ne
    by (simp add: computeBoundingBox_def masterRole_def Let_def)
  have out: "m2n_out ?c5 = [IntMsg (int (length fm)), FeedbackMapMsg fm]"
    using loop(2) out2 by (simp add: sendFeedbackMap_def m2n_send_def)
  have bc: "broadcasts (com_out ?c5) = [IntMsg (remoteParComSize s0), BoundingBoxMapMsg ?M]"
    using loop(3)
    by (simp add: sendFeedbackMap_def m2n_send_def broadcastSendBoundingBoxMap_def
          com_broadcast_def idle_def)
  have f0: "feedback_of fm 0 = ?fb0"
  proof (cases "?fb0 = []")
    case True
    then have "map_of fm 0 = None" unfolding loop(4) using fm1_master by simp
    with True show ?thesis by (simp add: feedback_of_plain)
  next
    case False
    then have "map_of fm 0 = Some ?fb0" unfolding loop(4) using fm1_master by simp
    with overlap_ranks_not_sentinel[OF keys] show ?thesis by (simp add: feedback_of_plain)
  qed
  have fk: "\<forall>k. 1 \<le> k \<and> k < N \<longrightarrow> feedback_of fm k = fb k"
  proof (intro allI impI)
    fix k assume k: "1 \<le> k \<and> k < N"
    show "feedback_of fm k = fb k"
    proof (cases "fb k = []")
      case True
      with k have "map_of fm k = Some [- 1]" unfolding loop(4) using fm1_slave[of k] by simp
      with True show ?thesis by (simp add: feedback_of_plain)
    next
      case False
      with k have "map_of fm k = Some (fb k)" unfolding loop(4) by simp
      with fbs k show ?thesis by (simp add: feedback_of_plain)
    qed
  qed
  from run out bc f0 fk show ?thesis by blast
qed

text \<open>
  Claim C1. After phase 2, the entry of every local rank in the feedback map, with
  \<open>[-1]\<close> and an absent key read as the empty list, is exactly the list of the remote
  ranks whose box overlaps the box of that rank, in ascending order.

  The master holds a remote map with the dense keys \<open>0, \<dots>, remoteParComSize - 1\<close> of
  the data model, there is at least one slave, the slaves have not received a map before,
  and every rank can run (\<open>rank_ready\<close>). Then the collective run returns; the master
  sends the size of the feedback map and the map to the other master; what it has
  broadcast is what the slaves were given; every rank's box is the one
  \<^verbatim>\<open>prepareBoundingBox\<close> computes, and every slave ends with the master's remote map;
  and the entry of rank 0 and of every slave rank \<open>i + 1\<close> is the overlap set of that
  rank's box against the remote map.
\<close>

theorem feedbackMap_is_overlap_set:
  assumes keys: "map fst (remoteBBM master) = [0..remoteParComSize master - 1]"
    and slaves: "slaves \<noteq> []"
    and fresh: "list_all (\<lambda>s. remoteBBM s = []) slaves"
    and ready: "list_all (rank_ready (remoteBBM master)) (master # slaves)"
  shows "\<exists>m cm ps fm.
           collective_computeBoundingBox master slaves = Inr ((m, cm), ps)
         \<and> length ps = length slaves
         \<and> m2n_out cm = [IntMsg (int (length fm)), FeedbackMapMsg fm]
         \<and> broadcasts (com_out cm)
             = [IntMsg (remoteParComSize master), BoundingBoxMapMsg (remoteBBM master)]
         \<and> prepareBoundingBox master = Inr m
         \<and> feedback_of fm 0 = overlap_ranks (dimensions m) (bb m) (remoteBBM master)
         \<and> (\<forall>i<length slaves.
               (\<exists>b. prepareBoundingBox (slaves ! i) = Inr ((slaves ! i)\<lparr>bb := b\<rparr>)
                  \<and> fst (ps ! i) = (slaves ! i)\<lparr>bb := b,
                        remoteParComSize := remoteParComSize master,
                        remoteBBM := remoteBBM master\<rparr>)
             \<and> feedback_of fm (int i + 1)
                 = overlap_ranks (dimensions (fst (ps ! i))) (bb (fst (ps ! i))) (remoteBBM master))"
proof -
  let ?M = "remoteBBM master"
  let ?n = "remoteParComSize master"
  let ?N = "1 + int (length slaves)"
  from ready have rm: "rank_ready ?M master" and rs: "list_all (rank_ready ?M) slaves"
    by simp_all
  from run_slaves_char[OF keys fresh rs, of ?N 1]
  obtain ps where ps: "run_slaves ?N 1 [IntMsg ?n, BoundingBoxMapMsg ?M] slaves = Inr ps"
    "length ps = length slaves"
    "\<forall>i<length slaves. \<exists>b.
                 prepareBoundingBox (slaves ! i) = Inr ((slaves ! i)\<lparr>bb := b\<rparr>)
               \<and> fst (ps ! i) = (slaves ! i)\<lparr>bb := b, remoteParComSize := ?n, remoteBBM := ?M\<rparr>
               \<and> sent_to 0 (com_out (snd (ps ! i)))
                   = feedback_messages (overlap_ranks (dimensions (slaves ! i)) b ?M)"
    by blast
  define fb where "fb k = overlap_ranks (dimensions (fst (ps ! nat (k - 1))))
                            (bb (fst (ps ! nat (k - 1)))) ?M" for k :: int
  have slave_i: "\<And>i. i < length slaves \<Longrightarrow>
      sent_to 0 (com_out (snd (ps ! i))) = feedback_messages (fb (int i + 1))"
  proof -
    fix i assume i: "i < length slaves"
    with ps(3) obtain b where b: "fst (ps ! i) = (slaves ! i)\<lparr>bb := b, remoteParComSize := ?n, remoteBBM := ?M\<rparr>"
       "sent_to 0 (com_out (snd (ps ! i)))
                   = feedback_messages (overlap_ranks (dimensions (slaves ! i)) b ?M)"
      by blast
    from b(1) have "dimensions (fst (ps ! i)) = dimensions (slaves ! i)" "bb (fst (ps ! i)) = b"
      by simp_all
    with b(2) show "sent_to 0 (com_out (snd (ps ! i))) = feedback_messages (fb (int i + 1))"
      by (simp add: fb_def)
  qed
  have msgs: "\<forall>k. 1 \<le> k \<and> k < ?N \<longrightarrow> from_slaves ps k = feedback_messages (fb k)"
  proof (intro allI impI)
    fix k assume k: "1 \<le> k \<and> k < ?N"
    then have i: "nat (k - 1) < length slaves" by auto
    from slave_i[OF i] k ps(2) show "from_slaves ps k = feedback_messages (fb k)"
      by (simp add: from_slaves_def)
  qed
  have fbs: "\<forall>k. 1 \<le> k \<and> k < ?N \<longrightarrow> fb k \<noteq> [- 1]"
    using overlap_ranks_not_sentinel[OF keys] by (simp add: fb_def)
  from rm obtain b0 where b0: "prepareBoundingBox master = Inr (master\<lparr>bb := b0\<rparr>)"
      "length b0 = dimensions master"
    using prepareBoundingBox_ready[of master] by (auto simp: rank_ready_def)
  from rm have lens: "list_all (\<lambda>e. dimensions master \<le> length (snd e)) ?M"
    by (simp add: rank_ready_def)
  have size: "1 < ?N" using slaves by (cases slaves) simp_all
  from master_computeBoundingBox[OF b0 keys lens size msgs fbs]
  obtain cm fm where m: "computeBoundingBox (masterRole ?N) (master, idle\<lparr>com_in := from_slaves ps\<rparr>)
                   = Inr (master\<lparr>bb := b0\<rparr>, cm)"
     "m2n_out cm = [IntMsg (int (length fm)), FeedbackMapMsg fm]"
     "broadcasts (com_out cm) = [IntMsg ?n, BoundingBoxMapMsg ?M]"
     "feedback_of fm 0 = overlap_ranks (dimensions master) b0 ?M"
     "\<forall>k. 1 \<le> k \<and> k < ?N \<longrightarrow> feedback_of fm k = fb k"
    by blast
  have run: "collective_computeBoundingBox master slaves = Inr ((master\<lparr>bb := b0\<rparr>, cm), ps)"
    using ps(1) m(1) by (simp add: collective_computeBoundingBox_def Let_def)
  have sl: "\<forall>i<length slaves.
               (\<exists>b. prepareBoundingBox (slaves ! i) = Inr ((slaves ! i)\<lparr>bb := b\<rparr>)
                  \<and> fst (ps ! i) = (slaves ! i)\<lparr>bb := b, remoteParComSize := ?n, remoteBBM := ?M\<rparr>)
             \<and> feedback_of fm (int i + 1)
                 = overlap_ranks (dimensions (fst (ps ! i))) (bb (fst (ps ! i))) ?M"
  proof (intro allI impI conjI)
    fix i assume i: "i < length slaves"
    from ps(3) i show "\<exists>b. prepareBoundingBox (slaves ! i) = Inr ((slaves ! i)\<lparr>bb := b\<rparr>)
                  \<and> fst (ps ! i) = (slaves ! i)\<lparr>bb := b, remoteParComSize := ?n, remoteBBM := ?M\<rparr>"
      by blast
    from i have "1 \<le> int i + 1 \<and> int i + 1 < ?N" by simp
    with m(5) have "feedback_of fm (int i + 1) = fb (int i + 1)" by blast
    then show "feedback_of fm (int i + 1)
                 = overlap_ranks (dimensions (fst (ps ! i))) (bb (fst (ps ! i))) ?M"
      by (simp add: fb_def)
  qed
  from run ps(2) m(2,3) b0(1) m(4) sl show ?thesis
    by (intro exI[of _ "master\<lparr>bb := b0\<rparr>"] exI[of _ cm] exI[of _ ps] exI[of _ fm]) simp
qed

section \<open>The scenarios of the specification\<close>

text \<open>Unfolding the phases evaluates the model on concrete inputs.\<close>

lemmas eval_simps =
  overlapping_def overlapping_loop.simps
  init_remoteBBM.simps init_feedbackMap.simps receive_feedback_loop.simps
  computeBoundingBox_def collective_computeBoundingBox_def Let_def
  receive_int_def receive_vec_def m2n_receive_int_def m2n_send_def com_receive_int_def
  com_receive_vec_def com_send_def com_broadcast_def store_entries_def receive_bbm_def
  receiveBoundingBoxMap_def broadcastSendBoundingBoxMap_def broadcastReceiveBoundingBoxMap_def
  sendFeedbackMap_def initialBB_def idle_def masterRole_def slaveRole_def soloRole_def
  from_slaves_def map_at_def eval_nat_numeral

text \<open>
  The scenarios: the fields that the constructor sets, and the box that
  \<^verbatim>\<open>prepareBoundingBox\<close> computes, which is the box of the attached mapping.
\<close>

lemma DBL_MAX_gt_3: "3 < DBL_MAX"
  by (simp add: DBL_MAX_def)

lemma union_of_one_attached:
  assumes "fromMapping s = Some [(Fin a, Fin b), (Fin c, Fin d)]" and "toMapping s = None"
    and "dimensions s = 2"
    and "a \<le> 3" and "- 3 \<le> b" and "c \<le> 3" and "- 3 \<le> d"
  shows "union_of_attached s = [(Fin a, Fin b), (Fin c, Fin d)]"
  using assms DBL_MAX_gt_3
  by (simp add: union_of_attached_def attached_def unite_def min_def max_def
        less_eq_double_def DBL_LOWEST_def eval_nat_numeral)

lemma E1_master_fields:
  "dimensions E1_master = 2" "remoteParComSize E1_master = 2"
  "remoteBBM E1_master = [(0, [(Fin (1 / 2), Fin (3 / 2)), (Fin 0, Fin 1)]),
                          (1, [(Fin (5 / 2), Fin (29 / 10)), (Fin 0, Fin 1)])]"
  "bb E1_master = replicate 2 (Fin DBL_MAX, Fin DBL_LOWEST)"
  "safetyFactor E1_master = Fin 0"
  "fromMapping E1_master = Some [(Fin 0, Fin 1), (Fin 0, Fin 1)]" "toMapping E1_master = None"
  by (simp_all add: E1_master_def newReceivedBoundingBox_def)


lemma E_slave_fields:
  "dimensions E_slave = 2" "remoteParComSize E_slave = 0" "remoteBBM E_slave = []"
  "bb E_slave = replicate 2 (Fin DBL_MAX, Fin DBL_LOWEST)"
  "safetyFactor E_slave = Fin 0"
  "fromMapping E_slave = Some [(Fin 2, Fin 3), (Fin 0, Fin 1)]" "toMapping E_slave = None"
  by (simp_all add: E_slave_def newReceivedBoundingBox_def)

lemma E1_master_prepared:
  "prepareBoundingBox E1_master = Inr (E1_master\<lparr>bb := [(Fin 0, Fin 1), (Fin 0, Fin 1)]\<rparr>)"
proof -
  have u: "union_of_attached E1_master = [(Fin 0, Fin 1), (Fin 0, Fin 1)]"
    by (rule union_of_one_attached) (simp_all add: E1_master_fields)
  have "prepareBoundingBox E1_master = Inr (E1_master\<lparr>bb := union_of_attached E1_master\<rparr>)"
  proof (rule prepareBoundingBox_zero_factor)
    show "sides_within_max (union_of_attached E1_master)"
      unfolding u by (simp add: sides_within_max_def DBL_MAX_def)
  qed (simp_all add: E1_master_fields attached_def finite_double_box_def)
  then show ?thesis by (simp only: u)
qed


lemma E_slave_prepared:
  "prepareBoundingBox E_slave = Inr (E_slave\<lparr>bb := [(Fin 2, Fin 3), (Fin 0, Fin 1)]\<rparr>)"
proof -
  have u: "union_of_attached E_slave = [(Fin 2, Fin 3), (Fin 0, Fin 1)]"
    by (rule union_of_one_attached) (simp_all add: E_slave_fields)
  have "prepareBoundingBox E_slave = Inr (E_slave\<lparr>bb := union_of_attached E_slave\<rparr>)"
  proof (rule prepareBoundingBox_zero_factor)
    show "sides_within_max (union_of_attached E_slave)"
      unfolding u by (simp add: sides_within_max_def DBL_MAX_def)
  qed (simp_all add: E_slave_fields attached_def finite_double_box_def)
  then show ?thesis by (simp only: u)
qed

text \<open>Scenario E1: the master overlaps remote rank 0, the slave remote rank 1.\<close>

lemma E1_overlaps:
  "overlap_ranks 2 [(Fin 0, Fin 1), (Fin 0, Fin 1)] (remoteBBM E1_master) = [0]"
  "overlap_ranks 2 [(Fin 2, Fin 3), (Fin 0, Fin 1)] (remoteBBM E1_master) = [1]"
  by (simp_all add: overlap_ranks_sorted E1_master_fields
        overlapping_def overlapping_loop.simps)

theorem feedbackMap_is_overlap_set_E1:
  "\<exists>m cm ps fm.
      collective_computeBoundingBox E1_master [E_slave] = Inr ((m, cm), ps)
    \<and> m2n_out cm = [IntMsg (int (length fm)), FeedbackMapMsg fm]
    \<and> feedback_of fm 0 = [0] \<and> feedback_of fm 1 = [1]"
proof -
  have keys: "map fst (remoteBBM E1_master) = [0..remoteParComSize E1_master - 1]"
    by (simp add: E1_master_fields upto.simps)
  have fresh: "list_all (\<lambda>s. remoteBBM s = []) [E_slave]"
    by (simp add: E_slave_fields)
  have ready: "list_all (rank_ready (remoteBBM E1_master)) (E1_master # [E_slave])"
    by (simp add: rank_ready_def attached_def E1_master_fields E_slave_fields)
  from feedbackMap_is_overlap_set[OF keys _ fresh ready]
  obtain m cm ps fm where r:
    "collective_computeBoundingBox E1_master [E_slave] = Inr ((m, cm), ps)"
    "m2n_out cm = [IntMsg (int (length fm)), FeedbackMapMsg fm]"
    "prepareBoundingBox E1_master = Inr m"
    "feedback_of fm 0 = overlap_ranks (dimensions m) (bb m) (remoteBBM E1_master)"
    "\<forall>i<length [E_slave].
               (\<exists>b. prepareBoundingBox ([E_slave] ! i) = Inr (([E_slave] ! i)\<lparr>bb := b\<rparr>)
                  \<and> fst (ps ! i) = ([E_slave] ! i)\<lparr>bb := b,
                        remoteParComSize := remoteParComSize E1_master,
                        remoteBBM := remoteBBM E1_master\<rparr>)
             \<and> feedback_of fm (int i + 1)
                 = overlap_ranks (dimensions (fst (ps ! i))) (bb (fst (ps ! i))) (remoteBBM E1_master)"
    by blast
  from r(3) have m: "m = E1_master\<lparr>bb := [(Fin 0, Fin 1), (Fin 0, Fin 1)]\<rparr>"
    by (simp add: E1_master_prepared)
  then have dm: "dimensions m = 2" "bb m = [(Fin 0, Fin 1), (Fin 0, Fin 1)]"
    by (simp_all add: E1_master_fields)
  from r(5) obtain b where b: "prepareBoundingBox E_slave = Inr (E_slave\<lparr>bb := b\<rparr>)"
     "fst (ps ! 0) = E_slave\<lparr>bb := b, remoteParComSize := remoteParComSize E1_master,
                        remoteBBM := remoteBBM E1_master\<rparr>"
     "feedback_of fm 1 = overlap_ranks (dimensions (fst (ps ! 0))) (bb (fst (ps ! 0))) (remoteBBM E1_master)"
    by auto
  from b(1) have "bb (E_slave\<lparr>bb := b\<rparr>) = bb (E_slave\<lparr>bb := [(Fin 2, Fin 3), (Fin 0, Fin 1)]\<rparr>)"
    by (simp add: E_slave_prepared)
  then have "b = [(Fin 2, Fin 3), (Fin 0, Fin 1)]" by simp
  with b(2) have ds: "dimensions (fst (ps ! 0)) = 2"
      "bb (fst (ps ! 0)) = [(Fin 2, Fin 3), (Fin 0, Fin 1)]"
    by (simp_all add: E_slave_fields)
  from r(1,2) r(4) b(3) show ?thesis
    unfolding dm ds E1_overlaps by blast
qed

text \<open>
  Scenarios E1 and E2: the master's state is the one that phase 1 reaches from the
  constructor when the other master sends the size 2 and the remote map.
\<close>

lemma E1_master_after_phase_1:
  "communicateBoundingBox (masterRole 2)
     (newReceivedBoundingBox 2 (Fin 0) 0 (Some [(Fin 0, Fin 1), (Fin 0, Fin 1)]) None,
      idle\<lparr>m2n_in := [IntMsg 2, BoundingBoxMapMsg (remoteBBM E1_master)]\<rparr>)
   = Inr (E1_master, idle)"
  using communicateBoundingBox_fills_map
          [where ms = "masterRole 2" and n = 2 and c = idle and q = "[]"
             and s = "newReceivedBoundingBox 2 (Fin 0) 0 (Some [(Fin 0, Fin 1), (Fin 0, Fin 1)]) None"
             and received = "remoteBBM E1_master"]
  by (simp add: E1_master_def newReceivedBoundingBox_def masterRole_def idle_def upto.simps)

lemma E2_master_after_phase_1:
  "communicateBoundingBox (masterRole 2)
     (newReceivedBoundingBox 2 (Fin 0) 0 (Some [(Fin 0, Fin 1), (Fin 0, Fin 1)]) None,
      idle\<lparr>m2n_in := [IntMsg 2, BoundingBoxMapMsg (remoteBBM E2_master)]\<rparr>)
   = Inr (E2_master, idle)"
  using communicateBoundingBox_fills_map
          [where ms = "masterRole 2" and n = 2 and c = idle and q = "[]"
             and s = "newReceivedBoundingBox 2 (Fin 0) 0 (Some [(Fin 0, Fin 1), (Fin 0, Fin 1)]) None"
             and received = "remoteBBM E2_master"]
  by (simp add: E2_master_def newReceivedBoundingBox_def masterRole_def idle_def upto.simps)




section \<open>The single-rank participant\<close>

text \<open>The two phases on the single-rank instance.\<close>

lemma solo_instance_fields:
  "dimensions solo_instance = 1" "remoteParComSize solo_instance = 0"
  "remoteBBM solo_instance = []"
  "bb solo_instance = replicate 1 (Fin DBL_MAX, Fin DBL_LOWEST)"
  "safetyFactor solo_instance = Fin 0"
  "fromMapping solo_instance = Some [(Fin 0, Fin 1)]" "toMapping solo_instance = None"
  by (simp_all add: solo_instance_def newReceivedBoundingBox_def)

lemma solo_instance_prepared:
  "prepareBoundingBox solo_instance = Inr (solo_instance\<lparr>bb := [(Fin 0, Fin 1)]\<rparr>)"
proof -
  have u: "union_of_attached solo_instance = [(Fin 0, Fin 1)]"
    using DBL_MAX_pos
    by (simp add: union_of_attached_def attached_def unite_def min_def max_def
          less_eq_double_def DBL_LOWEST_def solo_instance_fields)
  have "prepareBoundingBox solo_instance
          = Inr (solo_instance\<lparr>bb := union_of_attached solo_instance\<rparr>)"
  proof (rule prepareBoundingBox_zero_factor)
    show "sides_within_max (union_of_attached solo_instance)"
      unfolding u by (simp add: sides_within_max_def DBL_MAX_def)
  qed (simp_all add: solo_instance_fields attached_def finite_double_box_def)
  then show ?thesis by (simp only: u)
qed

lemma solo_compute:
  "computeBoundingBox soloRole (solo_instance, idle)
     = Inr (solo_instance\<lparr>bb := [(Fin 0, Fin 1)]\<rparr>, idle)"
  by (simp add: computeBoundingBox_def soloRole_def solo_instance_prepared)

lemma solo_communicate:
  "communicateBoundingBox soloRole
      (solo_instance, idle\<lparr>m2n_in := [IntMsg 1, BoundingBoxMapMsg [(0, [(Fin 5, Fin 6)])]]\<rparr>)
     = Inr (solo_instance\<lparr>remoteParComSize := 1, remoteBBM := [(0, [(Fin 5, Fin 6)])]\<rparr>, idle)"
  by (simp add: communicateBoundingBox_def eval_simps solo_instance_fields)

text \<open>
  Claim C9, as stated, fails. \<^verbatim>\<open>communicateBoundingBox\<close> is guarded by
  \<^verbatim>\<open>not _slaveMode\<close>, so a rank that is neither master nor slave receives the remote
  size and the remote map from the other master and stores them; and
  \<^verbatim>\<open>computeBoundingBox\<close> calls \<^verbatim>\<open>prepareBoundingBox\<close> before it looks at the
  mode, so \<^verbatim>\<open>_bb\<close> becomes the box of the attached mapping. Neither returns the
  instance and the channels as they were.
\<close>

theorem solo_phases_not_noops:
  "communicateBoundingBox soloRole
      (solo_instance, idle\<lparr>m2n_in := [IntMsg 1, BoundingBoxMapMsg [(0, [(Fin 5, Fin 6)])]]\<rparr>)
     = Inr (solo_instance\<lparr>remoteParComSize := 1, remoteBBM := [(0, [(Fin 5, Fin 6)])]\<rparr>, idle)
   \<and> communicateBoundingBox soloRole
      (solo_instance, idle\<lparr>m2n_in := [IntMsg 1, BoundingBoxMapMsg [(0, [(Fin 5, Fin 6)])]]\<rparr>)
     \<noteq> Inr (solo_instance, idle\<lparr>m2n_in := [IntMsg 1, BoundingBoxMapMsg [(0, [(Fin 5, Fin 6)])]]\<rparr>)
   \<and> computeBoundingBox soloRole (solo_instance, idle)
     = Inr (solo_instance\<lparr>bb := [(Fin 0, Fin 1)]\<rparr>, idle)
   \<and> computeBoundingBox soloRole (solo_instance, idle) \<noteq> Inr (solo_instance, idle)"
proof -
  have a: "idle \<noteq> idle\<lparr>m2n_in := [IntMsg 1, BoundingBoxMapMsg [(0, [(Fin 5, Fin 6)])]]\<rparr>"
    by (simp add: idle_def)
  have "bb (solo_instance\<lparr>bb := [(Fin 0, Fin 1)]\<rparr>) \<noteq> bb solo_instance"
    using DBL_MAX_pos by (simp add: solo_instance_fields)
  then have b: "solo_instance\<lparr>bb := [(Fin 0, Fin 1)]\<rparr> \<noteq> solo_instance" by metis
  show ?thesis
    unfolding solo_compute solo_communicate using a b by simp
qed

text \<open>
  Claim C9, amended. For a rank that is neither in master nor in slave mode,
  \<^verbatim>\<open>computeBoundingBox\<close> is \<^verbatim>\<open>prepareBoundingBox\<close> and nothing else: it aborts
  where that aborts, and otherwise replaces \<^verbatim>\<open>_bb\<close>, changes no other field and
  leaves the channels untouched. \<^verbatim>\<open>communicateBoundingBox\<close> does what it does on a
  master: when the other master has sent a size \<open>n\<close> and a map, it stores \<open>n\<close> in
  \<^verbatim>\<open>_remoteParComSize\<close>, fills \<^verbatim>\<open>_remoteBBM\<close> with placeholders for the ranks below
  \<open>n\<close>, stores the received entries, and has consumed both messages.
\<close>

theorem solo_phases:
  assumes "\<not> masterMode ms" and "\<not> slaveMode ms"
  shows "computeBoundingBox ms (s, c)
           = (case prepareBoundingBox s of
                Inl e \<Rightarrow> Inl e
              | Inr s' \<Rightarrow> Inr (s\<lparr>bb := bb s'\<rparr>, c))
       \<and> communicateBoundingBox ms
           (s, c\<lparr>m2n_in := IntMsg n # BoundingBoxMapMsg received # q\<rparr>)
           = Inr (s\<lparr>remoteParComSize := n,
                    remoteBBM := store_entries received
                       (init_remoteBBM 0 n (initialBB (dimensions s)) (remoteBBM s))\<rparr>,
                  c\<lparr>m2n_in := q\<rparr>)"
proof
  show "computeBoundingBox ms (s, c)
           = (case prepareBoundingBox s of
                Inl e \<Rightarrow> Inl e
              | Inr s' \<Rightarrow> Inr (s\<lparr>bb := bb s'\<rparr>, c))"
  proof (cases "prepareBoundingBox s")
    case (Inl e)
    then show ?thesis by (simp add: computeBoundingBox_def)
  next
    case (Inr s')
    with prepareBoundingBox_shape[OF Inr] assms show ?thesis
      by (simp add: computeBoundingBox_def)
  qed
  show "communicateBoundingBox ms
           (s, c\<lparr>m2n_in := IntMsg n # BoundingBoxMapMsg received # q\<rparr>)
           = Inr (s\<lparr>remoteParComSize := n,
                    remoteBBM := store_entries received
                       (init_remoteBBM 0 n (initialBB (dimensions s)) (remoteBBM s))\<rparr>,
                  c\<lparr>m2n_in := q\<rparr>)"
    using assms(2)
    by (simp add: communicateBoundingBox_def m2n_receive_int_def receive_int_def
          receiveBoundingBoxMap_def receive_bbm_def Let_def)
qed

theorem solo_phases_witness:
  "computeBoundingBox soloRole (solo_instance, idle)
     = Inr (solo_instance\<lparr>bb := [(Fin 0, Fin 1)]\<rparr>, idle)
   \<and> communicateBoundingBox soloRole
        (solo_instance, idle\<lparr>m2n_in := [IntMsg 1, BoundingBoxMapMsg [(0, [(Fin 5, Fin 6)])]]\<rparr>)
     = Inr (solo_instance\<lparr>remoteParComSize := 1, remoteBBM := [(0, [(Fin 5, Fin 6)])]\<rparr>,
            idle\<lparr>m2n_in := []\<rparr>)"
proof -
  have i: "store_entries [(0, [(Fin 5, Fin 6)])]
             (init_remoteBBM 0 1 (initialBB (dimensions solo_instance)) (remoteBBM solo_instance))
           = [(0, [(Fin 5, Fin 6)])]"
    by (simp add: solo_instance_fields eval_simps)
  from solo_phases[of soloRole solo_instance idle 1 "[(0, [(Fin 5, Fin 6)])]" "[]"]
    solo_instance_prepared i
  show ?thesis by (simp add: soloRole_def)
qed

end
